theory Spec2Isabelle
  imports Main
begin

section \<open>The document: a tree of node references and a store of node data\<close>

text \<open>
  The two scripts of the repository, \<^verbatim>\<open>components/header.js\<close> and
  \<^verbatim>\<open>components/footer.js\<close>, work on the browser's document through
  \<^verbatim>\<open>getElementById\<close>, \<^verbatim>\<open>innerHTML\<close>, \<^verbatim>\<open>addEventListener\<close>,
  \<^verbatim>\<open>classList\<close> and \<^verbatim>\<open>querySelectorAll\<close>. The document is modelled as a tree
  of node references (object identities) and a store that maps every reference to the
  node's data. A node that is removed from the tree keeps its data in the store, as an
  object that a closure still holds does.
\<close>

type_synonym ref = nat

text \<open>
  The function values of the two scripts, defunctionalised: the two arrow functions of
  \<^verbatim>\<open>loadHeader\<close>, each with the value of \<^verbatim>\<open>mobileMenu\<close> it captured
  (an element or \<^verbatim>\<open>null\<close>), and the two mount functions.
\<close>

datatype callback =
    ToggleHidden "ref option"
  | AddHidden "ref option"
  | LoadHeader
  | LoadFooter

datatype kind = Document | Element string | Text string | Comment string

text \<open>
  The \<^verbatim>\<open>class\<close> attribute is kept apart from the other attributes, as the list of
  its tokens. \<open>listeners\<close> is the node's event listener list: event type and callback,
  in the order of registration.
\<close>

record node =
  kind :: kind
  attrs :: "(string \<times> string) list"
  classes :: "string list"
  listeners :: "(string \<times> callback) list"

datatype tree = Tree ref "tree list"

text \<open>
  The phases of a page's life: the parser is at work (\<^verbatim>\<open>readyState\<close> is
  \<^verbatim>\<open>'loading'\<close>); the parser has finished and \<^verbatim>\<open>DOMContentLoaded\<close> has not been
  fired yet; it has been fired; the page has loaded.
\<close>

datatype phase = Parsing | Parsed | Ready | Loaded

datatype error = TypeError

text \<open>
  \<open>dom\<close> is the document's tree, its root the document node. \<open>next_ref\<close> is the
  first reference that no node has had yet. \<open>calls\<close> and \<open>uncaught\<close> are
  records that no operation reads: the callbacks that were invoked, and the exceptions
  that a listener threw and the browser reported.
\<close>

record page =
  dom :: tree
  store :: "ref \<Rightarrow> node"
  next_ref :: ref
  phase :: phase
  calls :: "callback list"
  uncaught :: "error list"

subsection \<open>Trees\<close>

fun root :: "tree \<Rightarrow> ref" where
  "root (Tree r ts) = r"

fun children :: "tree \<Rightarrow> tree list" where
  "children (Tree r ts) = ts"

text \<open>Tree order (document order): a node before its descendants, siblings left to right.\<close>

fun preorder :: "tree \<Rightarrow> ref list" where
  "preorder (Tree r ts) = r # concat (map preorder ts)"

text \<open>All subtrees, in tree order.\<close>

fun subtrees :: "tree \<Rightarrow> tree list" where
  "subtrees (Tree r ts) = Tree r ts # concat (map subtrees ts)"

text \<open>The subtree of the node \<open>c\<close>.\<close>

definition subtree :: "ref \<Rightarrow> tree \<Rightarrow> tree option" where
  "subtree c t = List.find (\<lambda>u. root u = c) (subtrees t)"

text \<open>The content of the node \<open>c\<close>: its children, with their subtrees.\<close>

definition content :: "ref \<Rightarrow> tree \<Rightarrow> tree list" where
  "content c t = (case subtree c t of None \<Rightarrow> [] | Some u \<Rightarrow> children u)"

text \<open>The tree with the children of the node \<open>c\<close> replaced.\<close>

fun set_children :: "ref \<Rightarrow> tree list \<Rightarrow> tree \<Rightarrow> tree" where
  "set_children c new (Tree r ts) =
     (if r = c then Tree r new else Tree r (map (set_children c new) ts))"

text \<open>
  The nodes of the document that are not inside the node \<open>c\<close>: the tree order of
  the document with the content of \<open>c\<close> taken out (\<open>c\<close> itself stays).
\<close>

definition outside :: "ref \<Rightarrow> tree \<Rightarrow> ref list" where
  "outside c t = preorder (set_children c [] t)"

text \<open>
  The event path of a target: the target first, then its ancestors up to the document
  node; \<open>None\<close> when the target is not in the tree.
\<close>

fun path_to :: "ref \<Rightarrow> tree \<Rightarrow> ref list option" where
  "path_to x (Tree r ts) =
     (if r = x then Some [r]
      else case concat (map (\<lambda>t. case path_to x t of None \<Rightarrow> [] | Some p \<Rightarrow> [p]) ts) of
             [] \<Rightarrow> None
           | p # ps \<Rightarrow> Some (p @ [r]))"

subsection \<open>The operations of the browser that the scripts call\<close>

text \<open>
  A receiver is an element or \<^verbatim>\<open>null\<close>: \<open>ref option\<close>. A property access or a
  method call on \<^verbatim>\<open>null\<close> throws a TypeError, before anything is changed.
\<close>

definition is_element :: "node \<Rightarrow> bool" where
  "is_element nd = (case kind nd of Element tg \<Rightarrow> True | _ \<Rightarrow> False)"

definition has_id :: "node \<Rightarrow> string \<Rightarrow> bool" where
  "has_id nd i = (is_element nd \<and> map_of (attrs nd) ''id'' = Some i)"

definition document :: "page \<Rightarrow> ref" where
  "document d = root (dom d)"

definition readyState :: "page \<Rightarrow> string" where
  "readyState d =
     (case phase d of
        Parsing \<Rightarrow> ''loading''
      | Parsed \<Rightarrow> ''interactive''
      | Ready \<Rightarrow> ''interactive''
      | Loaded \<Rightarrow> ''complete'')"

text \<open>
  \<^verbatim>\<open>document.getElementById(i)\<close>: the first element in tree order whose id is
  \<open>i\<close>, or \<^verbatim>\<open>null\<close>. The search is over the whole document.
\<close>

definition getElementById :: "page \<Rightarrow> string \<Rightarrow> ref option" where
  "getElementById d i = List.find (\<lambda>r. has_id (store d r) i) (preorder (dom d))"

text \<open>
  \<^verbatim>\<open>document.querySelectorAll('#i tg')\<close>, a descendant combinator of an id and a
  type selector: the elements of type \<open>tg\<close> that have an ancestor element with id
  \<open>i\<close>, in tree order. \<open>inside\<close> says that such an ancestor has been passed.
\<close>

fun select_inside :: "(ref \<Rightarrow> node) \<Rightarrow> string \<Rightarrow> string \<Rightarrow> bool \<Rightarrow> tree \<Rightarrow> ref list" where
  "select_inside s i tg inside (Tree r ts) =
     (if inside \<and> kind (s r) = Element tg then [r] else []) @
     concat (map (select_inside s i tg (inside \<or> has_id (s r) i)) ts)"

definition querySelectorAll :: "page \<Rightarrow> string \<Rightarrow> string \<Rightarrow> ref list" where
  "querySelectorAll d i tg = select_inside (store d) i tg False (dom d)"

text \<open>
  \<^verbatim>\<open>target.addEventListener(type, cb)\<close> appends to the target's listener list. The
  browser leaves out a listener that is registered already with the same type and the
  same function object; every arrow function of \<^verbatim>\<open>loadHeader\<close> is a new object, and
  each script registers its mount function once, so the scripts never meet that case.
\<close>

definition addEventListener :: "ref option \<Rightarrow> string \<Rightarrow> callback \<Rightarrow> page \<Rightarrow> error + page" where
  "addEventListener target ty cb d =
     (case target of
        None \<Rightarrow> Inl TypeError
      | Some r \<Rightarrow>
          Inr (d\<lparr>store := (store d)
                 (r := (store d r)\<lparr>listeners := listeners (store d r) @ [(ty, cb)]\<rparr>)\<rparr>))"

text \<open>
  \<^verbatim>\<open>classList\<close> is the ordered set of the tokens of the class attribute (the first
  occurrence of a token counts). \<^verbatim>\<open>toggle\<close> removes the token when it is in the set
  and appends it otherwise, \<^verbatim>\<open>add\<close> appends it when it is not in the set; both write
  the set back to the attribute.
\<close>

definition token_set :: "string list \<Rightarrow> string list" where
  "token_set cs = rev (remdups (rev cs))"

definition classList_toggle :: "ref option \<Rightarrow> string \<Rightarrow> page \<Rightarrow> error + page" where
  "classList_toggle target tok d =
     (case target of
        None \<Rightarrow> Inl TypeError
      | Some r \<Rightarrow>
          (let toks = token_set (classes (store d r));
               toks' = (if tok \<in> set toks then removeAll tok toks else toks @ [tok])
           in Inr (d\<lparr>store := (store d)(r := (store d r)\<lparr>classes := toks'\<rparr>)\<rparr>)))"

definition classList_add :: "ref option \<Rightarrow> string \<Rightarrow> page \<Rightarrow> error + page" where
  "classList_add target tok d =
     (case target of
        None \<Rightarrow> Inl TypeError
      | Some r \<Rightarrow>
          (let toks = token_set (classes (store d r));
               toks' = (if tok \<in> set toks then toks else toks @ [tok])
           in Inr (d\<lparr>store := (store d)(r := (store d r)\<lparr>classes := toks'\<rparr>)\<rparr>)))"

text \<open>
  Parsed markup: what the browser's parser makes of a template literal. Text between
  two tags that is white space only is left out.
\<close>

datatype html =
    El string "(string \<times> string) list" "string list" "html list"
  | Txt string
  | Cmt string

text \<open>
  The nodes of a parsed fragment are new objects: \<open>alloc\<close> gives every node of the
  markup a new reference, in tree order from \<open>n\<close> on, and writes its data to the
  store. A new node has no listeners.
\<close>

fun alloc :: "html \<Rightarrow> (ref \<Rightarrow> node) \<Rightarrow> ref \<Rightarrow> tree \<times> (ref \<Rightarrow> node) \<times> ref"
  and alloc_list :: "html list \<Rightarrow> (ref \<Rightarrow> node) \<Rightarrow> ref \<Rightarrow> tree list \<times> (ref \<Rightarrow> node) \<times> ref"
where
  "alloc (El tg as cs kids) s n =
     (case alloc_list kids
             (s(n := \<lparr>kind = Element tg, attrs = as, classes = cs, listeners = []\<rparr>)) (Suc n) of
        (ts, s', n') \<Rightarrow> (Tree n ts, s', n'))"
| "alloc (Txt x) s n =
     (Tree n [], s(n := \<lparr>kind = Text x, attrs = [], classes = [], listeners = []\<rparr>), Suc n)"
| "alloc (Cmt x) s n =
     (Tree n [], s(n := \<lparr>kind = Comment x, attrs = [], classes = [], listeners = []\<rparr>), Suc n)"
| "alloc_list [] s n = ([], s, n)"
| "alloc_list (h # hs) s n =
     (case alloc h s n of
        (t, s1, n1) \<Rightarrow>
          (case alloc_list hs s1 n1 of
             (ts, s2, n2) \<Rightarrow> (t # ts, s2, n2)))"

text \<open>
  \<^verbatim>\<open>element.innerHTML = markup\<close>: the children of the element are removed and the
  nodes of the parsed markup take their place.
\<close>

definition set_innerHTML :: "ref option \<Rightarrow> html list \<Rightarrow> page \<Rightarrow> error + page" where
  "set_innerHTML target markup d =
     (case target of
        None \<Rightarrow> Inl TypeError
      | Some c \<Rightarrow>
          (case alloc_list markup (store d) (next_ref d) of
             (ts, s', n') \<Rightarrow>
               Inr (d\<lparr>dom := set_children c ts (dom d), store := s', next_ref := n'\<rparr>)))"



section \<open>components/header.js\<close>

text \<open>
  The template literal \<^verbatim>\<open>headerHTML\<close>, parsed: the brand link and the button
  \<^verbatim>\<open>menuBtn\<close> side by side, then the panel \<^verbatim>\<open>mobileMenu\<close> with its two links
  (two more links stand inside a comment).
\<close>

definition headerHTML :: "html list" where
  \<open>headerHTML =
    [El ''header'' []
       [''sticky'', ''top-0'', ''z-50'', ''bg-background-light/95'',
        ''dark:bg-background-dark/95'', ''backdrop-blur-sm'', ''border-b'',
        ''border-gray-200'', ''dark:border-gray-700'']
       [El ''div'' []
          [''flex'', ''items-center'', ''p-4'', ''justify-between'', ''max-w-7xl'', ''mx-auto'']
          [El ''a'' [(''href'', ''index.html'')]
             [''flex'', ''items-center'', ''gap-3'', ''group'']
             [El ''div'' [] [''w-1'', ''h-12'', ''bg-primary'', ''rounded-full''] [],
              El ''div'' [] []
                [El ''h1'' []
                   [''text-text-dark-gray'', ''dark:text-background-light'', ''text-xl'',
                    ''font-black'', ''leading-tight'', ''group-hover:text-primary'',
                    ''transition-colors'']
                   [Txt (CHR 0x0A # ''              Jose Aristizabal'' @
                         CHR 0x0A # ''            '')],
                 El ''p'' []
                   [''text-gray-600'', ''dark:text-gray-400'', ''text-sm'', ''leading-tight'']
                   [Txt ''Solution Architect'']]],
           El ''button'' [(''id'', ''menuBtn''), (''aria-label'', ''Open menu'')]
             [''text-text-dark-gray'', ''dark:text-background-light'', ''flex'', ''size-12'',
              ''shrink-0'', ''items-center'', ''justify-end'']
             [El ''span'' [] [''material-symbols-outlined'', ''text-3xl''] [Txt ''menu'']]],
        Cmt '' Mobile Menu '',
        El ''nav'' [(''id'', ''mobileMenu'')]
          [''hidden'', ''bg-white'', ''dark:bg-gray-800'', ''border-t'', ''border-gray-200'',
           ''dark:border-gray-700'']
          [El ''div'' [] [''flex'', ''flex-col'', ''p-4'', ''space-y-2'']
             [El ''a'' [(''href'', ''index.html'')]
                [''py-2'', ''px-4'', ''hover:bg-gray-100'', ''dark:hover:bg-gray-700'',
                 ''rounded-lg'', ''transition-colors'']
                [Txt ''Home''],
              Cmt ('' <a href="projects.html" class="py-2 px-4 hover:bg-gray-100 dark:hover:bg-gray-700 rounded-lg transition-colors">All Projects</a>'' @
                   CHR 0x0A # ''          <a href="./blog/index.html" class="py-2 px-4 hover:bg-gray-100 dark:hover:bg-gray-700 rounded-lg transition-colors">Blog</a> ''),
              El ''a'' [(''href'', ''contact.html'')]
                [''py-2'', ''px-4'', ''hover:bg-gray-100'', ''dark:hover:bg-gray-700'',
                 ''rounded-lg'', ''transition-colors'']
                [Txt ''Contact'']]]]]\<close>

text \<open>
  \<^verbatim>\<open>document.querySelectorAll('#mobileMenu a').forEach(link => ...)\<close>: the loop over
  the links that the query gave.
\<close>

fun forEach_link :: "ref list \<Rightarrow> ref option \<Rightarrow> page \<Rightarrow> error + page" where
  "forEach_link [] mobileMenu d = Inr d"
| "forEach_link (link # links) mobileMenu d =
     (case addEventListener (Some link) ''click'' (AddHidden mobileMenu) d of
        Inl e \<Rightarrow> Inl e
      | Inr d' \<Rightarrow> forEach_link links mobileMenu d')"

definition loadHeader :: "page \<Rightarrow> error + page" where
  "loadHeader d =
     (let headerContainer = getElementById d ''header-container'' in
      if headerContainer \<noteq> None then
        (case set_innerHTML headerContainer headerHTML d of
           Inl e \<Rightarrow> Inl e
         | Inr d1 \<Rightarrow>
             (let menuBtn = getElementById d1 ''menuBtn'';
                  mobileMenu = getElementById d1 ''mobileMenu'' in
              if menuBtn \<noteq> None \<and> mobileMenu \<noteq> None then
                (case addEventListener menuBtn ''click'' (ToggleHidden mobileMenu) d1 of
                   Inl e \<Rightarrow> Inl e
                 | Inr d2 \<Rightarrow>
                     forEach_link (querySelectorAll d2 ''mobileMenu'' ''a'') mobileMenu d2)
              else Inr d1))
      else Inr d)"

section \<open>components/footer.js\<close>

definition copyright_text :: string where
  "copyright_text = CHR 0xA9 # '' 2025 Jose Aristizabal. All Rights Reserved.''"

definition footerHTML :: "html list" where
  "footerHTML =
    [El ''footer'' []
       [''bg-white'', ''dark:bg-gray-800'', ''border-t'', ''border-gray-200'',
        ''dark:border-gray-700'', ''py-6'']
       [El ''div'' [] [''max-w-7xl'', ''mx-auto'', ''px-4'', ''text-center'']
          [El ''p'' [] [''text-gray-500'', ''dark:text-gray-400'', ''text-sm'']
             [Txt copyright_text]]]]"

definition loadFooter :: "page \<Rightarrow> error + page" where
  "loadFooter d =
     (let footerContainer = getElementById d ''footer-container'' in
      if footerContainer \<noteq> None then set_innerHTML footerContainer footerHTML d
      else Inr d)"

section \<open>Calls, events and the life of a page\<close>

text \<open>What a callback does when it is called.\<close>

fun call :: "callback \<Rightarrow> page \<Rightarrow> error + page" where
  "call (ToggleHidden mobileMenu) d = classList_toggle mobileMenu ''hidden'' d"
| "call (AddHidden mobileMenu) d = classList_add mobileMenu ''hidden'' d"
| "call LoadHeader d = loadHeader d"
| "call LoadFooter d = loadFooter d"

text \<open>A call of a callback, entered in the record of calls.\<close>

definition invoke :: "callback \<Rightarrow> page \<Rightarrow> error + page" where
  "invoke cb d = call cb (d\<lparr>calls := calls d @ [cb]\<rparr>)"

text \<open>
  The top-level code of each script: while the document is loading the mount function
  is registered for \<^verbatim>\<open>DOMContentLoaded\<close> on the document, otherwise it is called.
\<close>

definition header_script :: "page \<Rightarrow> error + page" where
  "header_script d =
     (if readyState d = ''loading''
      then addEventListener (Some (document d)) ''DOMContentLoaded'' LoadHeader d
      else invoke LoadHeader d)"

definition footer_script :: "page \<Rightarrow> error + page" where
  "footer_script d =
     (if readyState d = ''loading''
      then addEventListener (Some (document d)) ''DOMContentLoaded'' LoadFooter d
      else invoke LoadFooter d)"

text \<open>
  The browser reports an exception that a script or a listener throws and goes on;
  the page is then as it was when the script or listener started (every operation above
  throws before it changes anything).
\<close>

definition reported :: "(page \<Rightarrow> error + page) \<Rightarrow> page \<Rightarrow> page" where
  "reported f d =
     (case f d of
        Inl e \<Rightarrow> d\<lparr>uncaught := uncaught d @ [e]\<rparr>
      | Inr d' \<Rightarrow> d')"

text \<open>
  Dispatch of an event that bubbles: along the event path, target first, each node's
  listeners of the event's type are called in the order of their registration. The
  listeners of a node are read when the dispatch reaches the node.
\<close>

definition listeners_for :: "string \<Rightarrow> node \<Rightarrow> callback list" where
  "listeners_for ty nd = map snd (filter (\<lambda>l. fst l = ty) (listeners nd))"

text \<open>The call of a listener: it is entered in the record of calls, also when it throws.\<close>

definition run_listener :: "callback \<Rightarrow> page \<Rightarrow> page" where
  "run_listener cb d = reported (call cb) (d\<lparr>calls := calls d @ [cb]\<rparr>)"

definition dispatch_at :: "string \<Rightarrow> ref \<Rightarrow> page \<Rightarrow> page" where
  "dispatch_at ty r d = fold run_listener (listeners_for ty (store d r)) d"

definition dispatch :: "ref \<Rightarrow> string \<Rightarrow> page \<Rightarrow> page" where
  "dispatch target ty d =
     (case path_to target (dom d) of
        None \<Rightarrow> d
      | Some p \<Rightarrow> fold (dispatch_at ty) p d)"

text \<open>
  A click of the user on a node of the document: the dispatch of the click event. What
  the browser does after the listeners (it follows a link that was clicked) is not part
  of the model.
\<close>

definition click :: "ref \<Rightarrow> page \<Rightarrow> page" where
  "click target d = dispatch target ''click'' d"

text \<open>
  What happens to a page. The parser finishes once, \<^verbatim>\<open>DOMContentLoaded\<close> is fired
  once, after that; scripts run and the user clicks at any time. \<open>None\<close>: the event
  cannot happen in this phase.
\<close>

datatype browser_event =
    RunHeaderScript
  | RunFooterScript
  | ParserFinishes
  | FireDOMContentLoaded
  | LoadFinishes
  | UserClick ref

fun browser_step :: "browser_event \<Rightarrow> page \<Rightarrow> page option" where
  "browser_step RunHeaderScript d = Some (reported header_script d)"
| "browser_step RunFooterScript d = Some (reported footer_script d)"
| "browser_step ParserFinishes d =
     (if phase d = Parsing then Some (d\<lparr>phase := Parsed\<rparr>) else None)"
| "browser_step FireDOMContentLoaded d =
     (if phase d = Parsed
      then Some ((dispatch (document d) ''DOMContentLoaded'' d)\<lparr>phase := Ready\<rparr>)
      else None)"
| "browser_step LoadFinishes d =
     (if phase d = Ready then Some (d\<lparr>phase := Loaded\<rparr>) else None)"
| "browser_step (UserClick r) d = Some (click r d)"

fun browser_run :: "browser_event list \<Rightarrow> page \<Rightarrow> page option" where
  "browser_run [] d = Some d"
| "browser_run (e # es) d =
     (case browser_step e d of
        None \<Rightarrow> None
      | Some d' \<Rightarrow> browser_run es d')"

section \<open>Properties of pages and example pages\<close>

definition hidden :: "page \<Rightarrow> ref \<Rightarrow> bool" where
  "hidden d r = (''hidden'' \<in> set (classes (store d r)))"

text \<open>The nodes inside the node \<open>c\<close>, in tree order.\<close>

definition inside :: "page \<Rightarrow> ref \<Rightarrow> ref list" where
  "inside d c = concat (map preorder (content c (dom d)))"


text \<open>
  The invariant of the pages that the two scripts work on: every node of the document
  has a reference below \<open>next_ref\<close>, and every click listener is one of the two
  closures of \<^verbatim>\<open>loadHeader\<close>, over an element that exists.
\<close>

definition closure_over :: "callback \<Rightarrow> ref \<Rightarrow> bool" where
  "closure_over cb q = (cb = ToggleHidden (Some q) \<or> cb = AddHidden (Some q))"

definition page_ok :: "page \<Rightarrow> bool" where
  "page_ok d =
     ((\<forall>r \<in> set (preorder (dom d)). r < next_ref d) \<and>
      (\<forall>r. \<forall>cb \<in> set (listeners_for ''click'' (store d r)).
         \<exists>q < next_ref d. closure_over cb q))"

text \<open>
  The host page keeps the two ids of the header to the header: no element outside the
  content of the placeholder \<open>c\<close> has the id \<^verbatim>\<open>menuBtn\<close> or \<^verbatim>\<open>mobileMenu\<close>.
\<close>

definition host_clean :: "page \<Rightarrow> ref \<Rightarrow> bool" where
  "host_clean d c =
     (\<forall>r \<in> set (outside c (dom d)).
        \<not> has_id (store d r) ''menuBtn'' \<and> \<not> has_id (store d r) ''mobileMenu'')"









text \<open>Example pages. \<open>unused\<close> is the data at a reference that no node has.\<close>

definition unused :: node where
  "unused = \<lparr>kind = Comment [], attrs = [], classes = [], listeners = []\<rparr>"

definition document_node :: node where
  "document_node = \<lparr>kind = Document, attrs = [], classes = [], listeners = []\<rparr>"

definition element :: "string \<Rightarrow> (string \<times> string) list \<Rightarrow> string list \<Rightarrow> node" where
  "element tg as cs = \<lparr>kind = Element tg, attrs = as, classes = cs, listeners = []\<rparr>"

definition new_page :: "tree \<Rightarrow> (ref \<Rightarrow> node) \<Rightarrow> ref \<Rightarrow> phase \<Rightarrow> page" where
  "new_page t s n ph =
     \<lparr>dom = t, store = s, next_ref = n, phase = ph, calls = [], uncaught = []\<rparr>"

text \<open>A page with both placeholders around its main content.\<close>

definition site_store :: "ref \<Rightarrow> node" where
  "site_store =
     (\<lambda>r. unused)
       (0 := document_node,
        1 := element ''html'' [] [],
        2 := element ''body'' [] [''font-display''],
        3 := element ''div'' [(''id'', ''header-container'')] [],
        4 := element ''main'' [] [],
        5 := element ''div'' [(''id'', ''footer-container'')] [])"

definition site_page :: "phase \<Rightarrow> page" where
  "site_page ph =
     new_page (Tree 0 [Tree 1 [Tree 2 [Tree 3 [], Tree 4 [], Tree 5 []]]]) site_store 6 ph"

text \<open>A page without placeholders.\<close>

definition bare_page :: page where
  "bare_page =
     new_page (Tree 0 [Tree 1 [Tree 2 [Tree 3 []]]])
       ((\<lambda>r. unused)
          (0 := document_node,
           1 := element ''html'' [] [],
           2 := element ''body'' [] [],
           3 := element ''main'' [] []))
       4 Ready"

text \<open>
  A page that has a button \<^verbatim>\<open>menuBtn\<close> and a panel \<^verbatim>\<open>mobileMenu\<close> of its own,
  before the header placeholder.
\<close>

definition foreign_page :: page where
  "foreign_page =
     new_page (Tree 0 [Tree 1 [Tree 2 [Tree 3 [], Tree 4 [], Tree 5 []]]])
       ((\<lambda>r. unused)
          (0 := document_node,
           1 := element ''html'' [] [],
           2 := element ''body'' [] [],
           3 := element ''button'' [(''id'', ''menuBtn'')] [],
           4 := element ''nav'' [(''id'', ''mobileMenu'')] [''hidden''],
           5 := element ''div'' [(''id'', ''header-container'')] []))
       6 Ready"





text \<open>
  The callbacks that wait for \<^verbatim>\<open>DOMContentLoaded\<close> on the document, and the number
  of executions of the script of a mount function among the events of a run.
\<close>

definition pending :: "page \<Rightarrow> callback list" where
  "pending d = listeners_for ''DOMContentLoaded'' (store d (document d))"

fun mount_of :: "browser_event \<Rightarrow> callback option" where
  "mount_of RunHeaderScript = Some LoadHeader"
| "mount_of RunFooterScript = Some LoadFooter"
| "mount_of e = None"

definition executions :: "callback \<Rightarrow> browser_event list \<Rightarrow> nat" where
  "executions m es = length (filter (\<lambda>e. mount_of e = Some m) es)"

text \<open>
  The calls of the callback \<open>m\<close> that a page accounts for: those made, and, until
  \<^verbatim>\<open>DOMContentLoaded\<close> has been fired, those that its dispatch will make.
\<close>

definition accounted :: "callback \<Rightarrow> page \<Rightarrow> nat" where
  "accounted m d =
     count_list (calls d) m +
     (if phase d = Parsing \<or> phase d = Parsed then count_list (pending d) m else 0)"


section \<open>Notions for the proofs\<close>

text \<open>Two nodes with the same kind, attributes and class tokens: they differ in their listeners at most.\<close>

definition same_markup :: "node \<Rightarrow> node \<Rightarrow> bool" where
  "same_markup a b = (kind a = kind b \<and> attrs a = attrs b \<and> classes a = classes b)"

text \<open>The data of the nodes of a piece of markup, in tree order.\<close>

fun flat :: "html \<Rightarrow> node list" where
  "flat (El tg as cs kids) =
     \<lparr>kind = Element tg, attrs = as, classes = cs, listeners = []\<rparr> # concat (map flat kids)"
| "flat (Txt x) = [\<lparr>kind = Text x, attrs = [], classes = [], listeners = []\<rparr>]"
| "flat (Cmt x) = [\<lparr>kind = Comment x, attrs = [], classes = [], listeners = []\<rparr>]"

definition header_data :: "node list" where
  "header_data = concat (map flat headerHTML)"

text \<open>The page after \<^verbatim>\<open>addEventListener\<close> on an element, and after \<^verbatim>\<open>innerHTML\<close> was set.\<close>

definition add_listener :: "ref \<Rightarrow> string \<Rightarrow> callback \<Rightarrow> page \<Rightarrow> page" where
  "add_listener r ty cb d =
     d\<lparr>store := (store d)(r := (store d r)\<lparr>listeners := listeners (store d r) @ [(ty, cb)]\<rparr>)\<rparr>"

definition inject :: "ref \<Rightarrow> html list \<Rightarrow> page \<Rightarrow> page" where
  "inject c markup d =
     d\<lparr>dom := set_children c (fst (alloc_list markup (store d) (next_ref d))) (dom d),
       store := fst (snd (alloc_list markup (store d) (next_ref d))),
       next_ref := snd (snd (alloc_list markup (store d) (next_ref d)))\<rparr>"

text \<open>The second half of \<^verbatim>\<open>loadHeader\<close>, where both lookups have found an element.\<close>

definition attach :: "page \<Rightarrow> page" where
  "attach d1 =
     (let menuBtn = getElementById d1 ''menuBtn'';
          mobileMenu = getElementById d1 ''mobileMenu'';
          d2 = add_listener (the menuBtn) ''click'' (ToggleHidden mobileMenu) d1
      in fold (\<lambda>link. add_listener link ''click'' (AddHidden mobileMenu))
           (querySelectorAll d2 ''mobileMenu'' ''a'') d2)"

text \<open>What a call of a callback does to the hidden state \<open>h\<close> of the element \<open>r\<close>.\<close>

fun effect :: "ref \<Rightarrow> callback \<Rightarrow> bool \<Rightarrow> bool" where
  "effect r (ToggleHidden (Some q)) h = (if q = r then \<not> h else h)"
| "effect r (AddHidden (Some q)) h = (if q = r then True else h)"
| "effect r cb h = h"

text \<open>The listeners that a click on \<open>x\<close> reaches, in the order of the dispatch.\<close>

definition click_callbacks :: "page \<Rightarrow> ref \<Rightarrow> callback list" where
  "click_callbacks d x =
     (case path_to x (dom d) of
        None \<Rightarrow> []
      | Some p \<Rightarrow> concat (map (\<lambda>r. listeners_for ''click'' (store d r)) p))"

text \<open>Two pages with the same tree, and the same data at every node but for the class tokens.\<close>

definition frame_eq :: "page \<Rightarrow> page \<Rightarrow> bool" where
  "frame_eq d d' =
     (dom d' = dom d \<and> next_ref d' = next_ref d \<and> phase d' = phase d \<and>
      uncaught d' = uncaught d \<and>
      (\<forall>r. kind (store d' r) = kind (store d r) \<and> attrs (store d' r) = attrs (store d r) \<and>
           listeners (store d' r) = listeners (store d r)))"

section \<open>Trees\<close>


lemma set_children_twice: "set_children c new' (set_children c new t) = set_children c new' t"
  by (induction t) auto


lemma preorder_set_children_subset:
  "set (preorder (set_children c new t)) \<subseteq>
     set (preorder (set_children c [] t)) \<union> set (concat (map preorder new))"
  by (induction t) auto

lemma preorder_emptied_subset: "set (preorder (set_children c [] t)) \<subseteq> set (preorder t)"
  by (induction t) auto

lemma outside_subset: "set (outside c t) \<subseteq> set (preorder t)"
  by (simp add: outside_def preorder_emptied_subset)

lemma new_in_preorder:
  "c \<in> set (preorder t) \<Longrightarrow>
     set (concat (map preorder new)) \<subseteq> set (preorder (set_children c new t))"
  by (induction t) auto



lemma find_unique:
  "x \<in> set xs \<Longrightarrow> P x \<Longrightarrow> (\<And>y. y \<in> set xs \<Longrightarrow> P y \<Longrightarrow> y = x) \<Longrightarrow> List.find P xs = Some x"
proof (induction xs)
  case Nil
  then show ?case by simp
next
  case (Cons a xs)
  show ?case
  proof (cases "P a")
    case True
    have "a = x" by (rule Cons.prems(3)) (simp_all add: True)
    then show ?thesis using True by simp
  next
    case False
    then have mem: "x \<in> set xs" using Cons.prems(1,2) by auto
    have "List.find P xs = Some x"
    proof (rule Cons.IH [OF mem Cons.prems(2)])
      fix y assume "y \<in> set xs" "P y"
      then show "y = x" by (intro Cons.prems(3)) simp_all
    qed
    then show ?thesis using False by simp
  qed
qed








section \<open>New nodes\<close>


lemma alloc_frame:
  "alloc h s n = (t, s', n') \<Longrightarrow>
     n < n' \<and> (\<forall>r. r < n \<or> n' \<le> r \<longrightarrow> s' r = s r) \<and> set (preorder t) \<subseteq> {n..<n'}"
  "alloc_list hs s n = (ts, s', n') \<Longrightarrow>
     n \<le> n' \<and> (\<forall>r. r < n \<or> n' \<le> r \<longrightarrow> s' r = s r) \<and>
     set (concat (map preorder ts)) \<subseteq> {n..<n'}"
proof (induction h s n and hs s n arbitrary: t s' n' and ts s' n' rule: alloc_alloc_list.induct)
  case (1 tg as cs kids s n)
  let ?s0 = "s(n := \<lparr>kind = Element tg, attrs = as, classes = cs, listeners = []\<rparr>)"
  obtain ts where a: "alloc_list kids ?s0 (Suc n) = (ts, s', n')" and t: "t = Tree n ts"
    using "1.prems" by (auto split: prod.splits)
  from "1.IH" [OF a] have ih: "Suc n \<le> n'" "\<forall>r. r < Suc n \<or> n' \<le> r \<longrightarrow> s' r = ?s0 r"
    "set (concat (map preorder ts)) \<subseteq> {Suc n..<n'}" by blast+
  have "n < n'" using ih(1) by simp
  moreover have "\<forall>r. r < n \<or> n' \<le> r \<longrightarrow> s' r = s r"
    using ih(1,2) by auto
  moreover have "set (preorder t) \<subseteq> {n..<n'}"
    using ih(1,3) t by auto
  ultimately show ?case by blast
next
  case (2 x s n)
  then show ?case by auto
next
  case (3 x s n)
  then show ?case by auto
next
  case (4 s n)
  then show ?case by auto
next
  case (5 h hs s n)
  obtain t1 s1 n1 ts2 where a: "alloc h s n = (t1, s1, n1)"
    and b: "alloc_list hs s1 n1 = (ts2, s', n')" and ts: "ts = t1 # ts2"
    using "5.prems" by (auto split: prod.splits)
  from "5.IH"(1) [OF a] have ih1: "n < n1" "\<forall>r. r < n \<or> n1 \<le> r \<longrightarrow> s1 r = s r"
    "set (preorder t1) \<subseteq> {n..<n1}" by blast+
  from "5.IH"(2) [OF a [symmetric] refl b]
  have ih2: "n1 \<le> n'" "\<forall>r. r < n1 \<or> n' \<le> r \<longrightarrow> s' r = s1 r"
    "set (concat (map preorder ts2)) \<subseteq> {n1..<n'}" by blast+
  have "n \<le> n'" using ih1(1) ih2(1) by simp
  moreover have "\<forall>r. r < n \<or> n' \<le> r \<longrightarrow> s' r = s r"
    using ih1(1,2) ih2(1,2) by auto
  moreover have "set (concat (map preorder ts)) \<subseteq> {n..<n'}"
    using ih1(1,3) ih2(1,3) ts by auto
  ultimately show ?case by blast
qed

lemma alloc_fresh_listeners:
  "alloc h s n = (t, s', n') \<Longrightarrow> \<forall>r. n \<le> r \<and> r < n' \<longrightarrow> listeners (s' r) = []"
  "alloc_list hs s n = (ts, s', n') \<Longrightarrow> \<forall>r. n \<le> r \<and> r < n' \<longrightarrow> listeners (s' r) = []"
proof (induction h s n and hs s n arbitrary: t s' n' and ts s' n' rule: alloc_alloc_list.induct)
  case (1 tg as cs kids s n)
  let ?s0 = "s(n := \<lparr>kind = Element tg, attrs = as, classes = cs, listeners = []\<rparr>)"
  obtain ts where a: "alloc_list kids ?s0 (Suc n) = (ts, s', n')" and t: "t = Tree n ts"
    using "1.prems" by (auto split: prod.splits)
  have "s' n = ?s0 n" using alloc_frame(2) [OF a] by simp
  then have "listeners (s' n) = []" by simp
  moreover have "\<forall>r. Suc n \<le> r \<and> r < n' \<longrightarrow> listeners (s' r) = []"
    using "1.IH" [OF a] .
  ultimately show ?case by (metis Suc_leI le_neq_implies_less)
next
  case (2 x s n)
  then show ?case by auto
next
  case (3 x s n)
  then show ?case by auto
next
  case (4 s n)
  then show ?case by auto
next
  case (5 h hs s n)
  obtain t1 s1 n1 ts2 where a: "alloc h s n = (t1, s1, n1)"
    and b: "alloc_list hs s1 n1 = (ts2, s', n')" and ts: "ts = t1 # ts2"
    using "5.prems" by (auto split: prod.splits)
  have ih1: "\<forall>r. n \<le> r \<and> r < n1 \<longrightarrow> listeners (s1 r) = []"
    using "5.IH"(1) [OF a] .
  have ih2: "\<forall>r. n1 \<le> r \<and> r < n' \<longrightarrow> listeners (s' r) = []"
    using "5.IH"(2) [OF a [symmetric] refl b] .
  have "\<forall>r. r < n1 \<longrightarrow> s' r = s1 r" using alloc_frame(2) [OF b] by simp
  then show ?case using ih1 ih2 by (metis not_le_imp_less)
qed


lemma alloc_flat:
  "alloc h s n = (t, s', n') \<Longrightarrow>
     n' = n + length (flat h) \<and> (\<forall>k < length (flat h). s' (n + k) = flat h ! k)"
  "alloc_list hs s n = (ts, s', n') \<Longrightarrow>
     n' = n + length (concat (map flat hs)) \<and>
     (\<forall>k < length (concat (map flat hs)). s' (n + k) = concat (map flat hs) ! k)"
proof (induction h s n and hs s n arbitrary: t s' n' and ts s' n' rule: alloc_alloc_list.induct)
  case (1 tg as cs kids s n)
  let ?nd = "\<lparr>kind = Element tg, attrs = as, classes = cs, listeners = []\<rparr>"
  let ?s0 = "s(n := ?nd)"
  obtain ts where a: "alloc_list kids ?s0 (Suc n) = (ts, s', n')" and t: "t = Tree n ts"
    using "1.prems" by (auto split: prod.splits)
  have ih: "n' = Suc n + length (concat (map flat kids))"
    "\<forall>k < length (concat (map flat kids)). s' (Suc n + k) = concat (map flat kids) ! k"
    using "1.IH" [OF a] by blast+
  have first: "s' n = ?nd" using alloc_frame(2) [OF a] by simp
  have "\<forall>k < length (flat (El tg as cs kids)). s' (n + k) = flat (El tg as cs kids) ! k"
  proof (intro allI impI)
    fix k assume k: "k < length (flat (El tg as cs kids))"
    show "s' (n + k) = flat (El tg as cs kids) ! k"
    proof (cases k)
      case 0
      then show ?thesis using first by simp
    next
      case (Suc j)
      then have "j < length (concat (map flat kids))" using k by simp
      then show ?thesis using ih(2) Suc by simp
    qed
  qed
  then show ?case using ih(1) by simp
next
  case (2 x s n)
  then show ?case by auto
next
  case (3 x s n)
  then show ?case by auto
next
  case (4 s n)
  then show ?case by auto
next
  case (5 h hs s n)
  obtain t1 s1 n1 ts2 where a: "alloc h s n = (t1, s1, n1)"
    and b: "alloc_list hs s1 n1 = (ts2, s', n')" and ts: "ts = t1 # ts2"
    using "5.prems" by (auto split: prod.splits)
  have ih1: "n1 = n + length (flat h)" "\<forall>k < length (flat h). s1 (n + k) = flat h ! k"
    using "5.IH"(1) [OF a] by blast+
  have ih2: "n' = n1 + length (concat (map flat hs))"
    "\<forall>k < length (concat (map flat hs)). s' (n1 + k) = concat (map flat hs) ! k"
    using "5.IH"(2) [OF a [symmetric] refl b] by blast+
  have keep: "\<forall>r. r < n1 \<longrightarrow> s' r = s1 r" using alloc_frame(2) [OF b] by simp
  have "\<forall>k < length (concat (map flat (h # hs))). s' (n + k) = concat (map flat (h # hs)) ! k"
  proof (intro allI impI)
    fix k assume k: "k < length (concat (map flat (h # hs)))"
    show "s' (n + k) = concat (map flat (h # hs)) ! k"
    proof (cases "k < length (flat h)")
      case True
      then have "s' (n + k) = s1 (n + k)" using keep ih1(1) by simp
      then show ?thesis using True ih1(2) by (simp add: nth_append)
    next
      case False
      define j where "j = k - length (flat h)"
      have j: "j < length (concat (map flat hs))" "k = length (flat h) + j"
        using False k by (simp_all add: j_def)
      have "s' (n + k) = s' (n1 + j)" using j(2) ih1(1) by (simp add: add.assoc)
      then show ?thesis using j ih2(2) by (simp add: nth_append)
    qed
  qed
  then show ?case using ih1(1) ih2(1) by simp
qed

section \<open>The operations as page updates\<close>

lemma set_innerHTML_eq: "set_innerHTML (Some c) markup d = Inr (inject c markup d)"
  by (simp add: set_innerHTML_def inject_def split: prod.splits)

lemma addEventListener_eq: "addEventListener (Some r) ty cb d = Inr (add_listener r ty cb d)"
  by (simp add: addEventListener_def add_listener_def)

lemma forEach_link_eq:
  "forEach_link links m d = Inr (fold (\<lambda>l. add_listener l ''click'' (AddHidden m)) links d)"
  by (induction links arbitrary: d) (simp_all add: addEventListener_eq)

lemma add_listener_simps:
  "dom (add_listener r ty cb d) = dom d"
  "next_ref (add_listener r ty cb d) = next_ref d"
  "phase (add_listener r ty cb d) = phase d"
  "calls (add_listener r ty cb d) = calls d"
  "uncaught (add_listener r ty cb d) = uncaught d"
  "kind (store (add_listener r ty cb d) x) = kind (store d x)"
  "attrs (store (add_listener r ty cb d) x) = attrs (store d x)"
  "classes (store (add_listener r ty cb d) x) = classes (store d x)"
  "listeners (store (add_listener r ty cb d) x) =
     listeners (store d x) @ (if x = r then [(ty, cb)] else [])"
  by (simp_all add: add_listener_def)

lemma fold_add_listener:
  "dom (fold (\<lambda>l. add_listener l ty cb) links d) = dom d"
  "next_ref (fold (\<lambda>l. add_listener l ty cb) links d) = next_ref d"
  "phase (fold (\<lambda>l. add_listener l ty cb) links d) = phase d"
  "calls (fold (\<lambda>l. add_listener l ty cb) links d) = calls d"
  "uncaught (fold (\<lambda>l. add_listener l ty cb) links d) = uncaught d"
  "kind (store (fold (\<lambda>l. add_listener l ty cb) links d) x) = kind (store d x)"
  "attrs (store (fold (\<lambda>l. add_listener l ty cb) links d) x) = attrs (store d x)"
  "classes (store (fold (\<lambda>l. add_listener l ty cb) links d) x) = classes (store d x)"
  "listeners (store (fold (\<lambda>l. add_listener l ty cb) links d) x) =
     listeners (store d x) @ replicate (count_list links x) (ty, cb)"
  by (induction links arbitrary: d) (simp_all add: add_listener_simps replicate_append_same)

lemma has_id_markup: "same_markup a b \<Longrightarrow> has_id a i = has_id b i"
  by (simp add: same_markup_def has_id_def is_element_def)


lemma select_inside_cong:
  "(\<And>r. r \<in> set (preorder t) \<Longrightarrow> same_markup (s' r) (s r)) \<Longrightarrow>
     select_inside s' i tg b t = select_inside s i tg b t"
proof (induction t arbitrary: b)
  case (Tree r ts)
  have r: "same_markup (s' r) (s r)" using Tree.prems by simp
  have kids: "map (select_inside s' i tg (b \<or> has_id (s r) i)) ts =
        map (select_inside s i tg (b \<or> has_id (s r) i)) ts"
  proof (rule map_cong [OF refl])
    fix u assume "u \<in> set ts"
    then show "select_inside s' i tg (b \<or> has_id (s r) i) u =
               select_inside s i tg (b \<or> has_id (s r) i) u"
      using Tree.IH [of u] Tree.prems by auto
  qed
  have "kind (s' r) = kind (s r)" using r by (simp add: same_markup_def)
  then show ?case by (simp add: kids has_id_markup [OF r, of i])
qed

lemma querySelectorAll_cong:
  assumes "dom d' = dom d" and "\<And>r. r \<in> set (preorder (dom d)) \<Longrightarrow> same_markup (store d' r) (store d r)"
  shows "querySelectorAll d' i tg = querySelectorAll d i tg"
  unfolding querySelectorAll_def assms(1)
  by (rule select_inside_cong) (rule assms(2))

lemma attach_simps:
  "dom (attach d) = dom d"
  "next_ref (attach d) = next_ref d"
  "phase (attach d) = phase d"
  "calls (attach d) = calls d"
  "uncaught (attach d) = uncaught d"
  "kind (store (attach d) x) = kind (store d x)"
  "attrs (store (attach d) x) = attrs (store d x)"
  "classes (store (attach d) x) = classes (store d x)"
  by (simp_all add: attach_def Let_def fold_add_listener add_listener_simps)

lemma attach_markup: "same_markup (store (attach d) x) (store d x)"
  by (simp add: same_markup_def attach_simps)

lemma attach_listeners:
  "listeners (store (attach d) x) =
     listeners (store d x) @
     (if x = the (getElementById d ''menuBtn'')
      then [(''click'', ToggleHidden (getElementById d ''mobileMenu''))] else []) @
     replicate (count_list (querySelectorAll d ''mobileMenu'' ''a'') x)
       (''click'', AddHidden (getElementById d ''mobileMenu''))"
proof -
  let ?d2 = "add_listener (the (getElementById d ''menuBtn'')) ''click''
               (ToggleHidden (getElementById d ''mobileMenu'')) d"
  have "querySelectorAll ?d2 ''mobileMenu'' ''a'' = querySelectorAll d ''mobileMenu'' ''a''"
    by (rule querySelectorAll_cong) (simp_all add: add_listener_simps same_markup_def)
  then show ?thesis
    by (simp add: attach_def Let_def fold_add_listener add_listener_simps)
qed

lemma inject_simps:
  "phase (inject c markup d) = phase d"
  "calls (inject c markup d) = calls d"
  "uncaught (inject c markup d) = uncaught d"
  "dom (inject c markup d) = set_children c (fst (alloc_list markup (store d) (next_ref d))) (dom d)"
  "store (inject c markup d) = fst (snd (alloc_list markup (store d) (next_ref d)))"
  "next_ref (inject c markup d) = snd (snd (alloc_list markup (store d) (next_ref d)))"
  by (simp_all add: inject_def)

lemma inject_old:
  "r < next_ref d \<Longrightarrow> store (inject c markup d) r = store d r"
  using alloc_frame(2) [of markup "store d" "next_ref d"]
  by (simp add: inject_simps prod_eq_iff)


lemma alloc_preorder:
  "alloc h s n = (t, s', n') \<Longrightarrow> preorder t = [n..<n']"
  "alloc_list hs s n = (ts, s', n') \<Longrightarrow> concat (map preorder ts) = [n..<n']"
proof (induction h s n and hs s n arbitrary: t s' n' and ts s' n' rule: alloc_alloc_list.induct)
  case (1 tg as cs kids s n)
  let ?s0 = "s(n := \<lparr>kind = Element tg, attrs = as, classes = cs, listeners = []\<rparr>)"
  obtain ts where a: "alloc_list kids ?s0 (Suc n) = (ts, s', n')" and t: "t = Tree n ts"
    using "1.prems" by (auto split: prod.splits)
  have "concat (map preorder ts) = [Suc n..<n']" using "1.IH" [OF a] .
  moreover have "n < n'" using alloc_frame(2) [OF a] by simp
  ultimately show ?case using t by (simp add: upt_conv_Cons)
next
  case (2 x s n)
  then show ?case by auto
next
  case (3 x s n)
  then show ?case by auto
next
  case (4 s n)
  then show ?case by auto
next
  case (5 h hs s n)
  obtain t1 s1 n1 ts2 where a: "alloc h s n = (t1, s1, n1)"
    and b: "alloc_list hs s1 n1 = (ts2, s', n')" and ts: "ts = t1 # ts2"
    using "5.prems" by (auto split: prod.splits)
  have ih1: "preorder t1 = [n..<n1]" using "5.IH"(1) [OF a] .
  have ih2: "concat (map preorder ts2) = [n1..<n']"
    using "5.IH"(2) [OF a [symmetric] refl b] .
  have "n \<le> n1" "n1 \<le> n'" using alloc_frame(1) [OF a] alloc_frame(2) [OF b] by simp_all
  then have "[n..<n1] @ [n1..<n'] = [n..<n']"
    by (metis le_Suc_ex upt_add_eq_append)
  then show ?case using ih1 ih2 ts by simp
qed

lemma header_len: "length header_data = 20"
  by (simp add: header_data_def headerHTML_def)

lemma header_trees:
  "fst (alloc_list headerHTML s n) =
    [Tree n
      [Tree (n + 1)
        [Tree (n + 2)
          [Tree (n + 3) [],
           Tree (n + 4) [Tree (n + 5) [Tree (n + 6) []], Tree (n + 7) [Tree (n + 8) []]]],
         Tree (n + 9) [Tree (n + 10) [Tree (n + 11) []]]],
       Tree (n + 12) [],
       Tree (n + 13)
        [Tree (n + 14)
          [Tree (n + 15) [Tree (n + 16) []], Tree (n + 17) [],
           Tree (n + 18) [Tree (n + 19) []]]]]]"
  by (simp add: headerHTML_def)

lemma header_next: "snd (snd (alloc_list headerHTML s n)) = n + 20"
  using alloc_flat(2) [of headerHTML s n] header_len
  by (simp add: prod_eq_iff header_data_def)

lemma header_fresh:
  "k < 20 \<Longrightarrow> fst (snd (alloc_list headerHTML s n)) (n + k) = header_data ! k"
  using alloc_flat(2) [of headerHTML s n] header_len
  by (simp add: prod_eq_iff header_data_def)

lemma header_data_menuBtn:
  "map (\<lambda>nd. has_id nd ''menuBtn'') header_data =
     [False, False, False, False, False, False, False, False, False, True,
      False, False, False, False, False, False, False, False, False, False]"
  by (simp add: header_data_def headerHTML_def has_id_def is_element_def)

lemma header_data_mobileMenu:
  "map (\<lambda>nd. has_id nd ''mobileMenu'') header_data =
     [False, False, False, False, False, False, False, False, False, False,
      False, False, False, True, False, False, False, False, False, False]"
  by (simp add: header_data_def headerHTML_def has_id_def is_element_def)

lemma header_data_links:
  "map (\<lambda>nd. kind nd = Element ''a'') header_data =
     [False, False, True, False, False, False, False, False, False, False,
      False, False, False, False, False, True, False, False, True, False]"
  by (simp add: header_data_def headerHTML_def)



lemma nth_of_map: "k < length xs \<Longrightarrow> f (xs ! k) = map f xs ! k"
  by simp

lemmas header_menuBtn_at = nth_of_map [of _ header_data "\<lambda>nd. has_id nd ''menuBtn''", unfolded header_len header_data_menuBtn]
lemmas header_mobileMenu_at = nth_of_map [of _ header_data "\<lambda>nd. has_id nd ''mobileMenu''", unfolded header_len header_data_mobileMenu]
lemmas header_link_at = nth_of_map [of _ header_data "\<lambda>nd. kind nd = Element ''a''", unfolded header_len header_data_links]



lemma found_element:
  "getElementById d i = Some c \<Longrightarrow> c \<in> set (preorder (dom d)) \<and> has_id (store d c) i"
  unfolding getElementById_def by (auto simp add: find_Some_iff)

lemma header_fresh_in_dom:
  assumes "c \<in> set (preorder (dom d))" and "k < 20"
  shows "next_ref d + k \<in> set (preorder (dom (inject c headerHTML d)))"
proof -
  obtain ts s' n' where a: "alloc_list headerHTML (store d) (next_ref d) = (ts, s', n')"
    by (cases "alloc_list headerHTML (store d) (next_ref d)") auto
  have "n' = next_ref d + 20" using header_next [of "store d" "next_ref d"] a by simp
  then have "concat (map preorder ts) = [next_ref d..<next_ref d + 20]"
    using alloc_preorder(2) [OF a] by simp
  then have "next_ref d + k \<in> set (concat (map preorder ts))" using assms(2) by simp
  then show ?thesis
    using new_in_preorder [OF assms(1), of ts] a by (auto simp add: inject_simps)
qed

lemma inject_header_fresh:
  "k < 20 \<Longrightarrow> store (inject c headerHTML d) (next_ref d + k) = header_data ! k"
  by (simp add: inject_simps header_fresh)

lemma injected_menuBtn:
  assumes "c \<in> set (preorder (dom d))"
  shows "getElementById (inject c headerHTML d) ''menuBtn'' \<noteq> None"
proof -
  have "next_ref d + 9 \<in> set (preorder (dom (inject c headerHTML d)))"
    by (rule header_fresh_in_dom [OF assms]) simp
  moreover have "has_id (store (inject c headerHTML d) (next_ref d + 9)) ''menuBtn''"
    by (simp add: inject_header_fresh header_menuBtn_at)
  ultimately show ?thesis
    unfolding getElementById_def find_None_iff by blast
qed

lemma injected_mobileMenu:
  assumes "c \<in> set (preorder (dom d))"
  shows "getElementById (inject c headerHTML d) ''mobileMenu'' \<noteq> None"
proof -
  have "next_ref d + 13 \<in> set (preorder (dom (inject c headerHTML d)))"
    by (rule header_fresh_in_dom [OF assms]) simp
  moreover have "has_id (store (inject c headerHTML d) (next_ref d + 13)) ''mobileMenu''"
    by (simp add: inject_header_fresh header_mobileMenu_at)
  ultimately show ?thesis
    unfolding getElementById_def find_None_iff by blast
qed

lemma loadHeader_eq:
  assumes "getElementById d ''header-container'' = Some c"
  shows "loadHeader d = Inr (attach (inject c headerHTML d))"
proof -
  let ?d1 = "inject c headerHTML d"
  have c: "c \<in> set (preorder (dom d))" using found_element [OF assms] by simp
  obtain b where b: "getElementById ?d1 ''menuBtn'' = Some b"
    using injected_menuBtn [OF c] by blast
  obtain m where m: "getElementById ?d1 ''mobileMenu'' = Some m"
    using injected_mobileMenu [OF c] by blast
  show ?thesis
    by (simp add: loadHeader_def assms set_innerHTML_eq b m addEventListener_eq
        forEach_link_eq attach_def Let_def)
qed





text \<open>
  Claim C5. For every document without the header placeholder, \<^verbatim>\<open>loadHeader\<close> returns
  without an exception and the page is the one it was: the same tree and the same data
  of every node, its listeners included.
\<close>

theorem loadHeader_without_placeholder:
  assumes "getElementById d ''header-container'' = None"
  shows "loadHeader d = Inr d"
  using assms by (simp add: loadHeader_def)

text \<open>
  The page without placeholders is such a document.
\<close>

theorem loadHeader_without_placeholder_witness:
  "getElementById bare_page ''header-container'' = None \<and> loadHeader bare_page = Inr bare_page"
proof -
  have none: "getElementById bare_page ''header-container'' = None"
    by (simp add: getElementById_def bare_page_def new_page_def has_id_def is_element_def
        element_def document_node_def)
  show ?thesis using none loadHeader_without_placeholder [OF none] by simp
qed

lemma site_header_container: "getElementById (site_page ph) ''header-container'' = Some 3"
  by (simp add: getElementById_def site_page_def site_store_def new_page_def has_id_def
      is_element_def element_def document_node_def)


section \<open>Clicks\<close>

lemma frame_eq_refl: "frame_eq d d"
  by (simp add: frame_eq_def)

lemma frame_eq_trans: "frame_eq a b \<Longrightarrow> frame_eq b c \<Longrightarrow> frame_eq a c"
  by (simp add: frame_eq_def)

lemma set_token_set: "set (token_set cs) = set cs"
  by (simp add: token_set_def)

lemma run_closure:
  assumes "closure_over cb q"
  shows "frame_eq d (run_listener cb d)"
    and "calls (run_listener cb d) = calls d @ [cb]"
    and "hidden (run_listener cb d) r = effect r cb (hidden d r)"
  using assms
  by (auto simp add: closure_over_def reported_def run_listener_def classList_toggle_def
      classList_add_def frame_eq_def hidden_def Let_def set_token_set)

lemma fold_run_closures:
  assumes "\<And>cb. cb \<in> set cbs \<Longrightarrow> \<exists>q. closure_over cb q"
  shows "frame_eq d (fold run_listener cbs d) \<and>
         calls (fold run_listener cbs d) = calls d @ cbs \<and>
         hidden (fold run_listener cbs d) r = fold (effect r) cbs (hidden d r)"
  using assms
proof (induction cbs arbitrary: d)
  case Nil
  then show ?case by (simp add: frame_eq_refl)
next
  case (Cons cb cbs)
  obtain q where q: "closure_over cb q" using Cons.prems by auto
  let ?d1 = "run_listener cb d"
  have ih: "frame_eq ?d1 (fold run_listener cbs ?d1) \<and>
         calls (fold run_listener cbs ?d1) = calls ?d1 @ cbs \<and>
         hidden (fold run_listener cbs ?d1) r = fold (effect r) cbs (hidden ?d1 r)"
    by (rule Cons.IH) (simp add: Cons.prems)
  show ?case
    using ih run_closure [OF q, of d] frame_eq_trans [of d ?d1]
    by simp
qed

lemma frame_eq_listeners: "frame_eq d d' \<Longrightarrow> listeners_for ty (store d' r) = listeners_for ty (store d r)"
  by (simp add: frame_eq_def listeners_for_def)

lemma fold_dispatch_closures:
  assumes "\<And>r cb. r \<in> set p \<Longrightarrow> cb \<in> set (listeners_for ty (store d r)) \<Longrightarrow> \<exists>q. closure_over cb q"
  shows "frame_eq d (fold (dispatch_at ty) p d) \<and>
         calls (fold (dispatch_at ty) p d) =
           calls d @ concat (map (\<lambda>r. listeners_for ty (store d r)) p) \<and>
         hidden (fold (dispatch_at ty) p d) x =
           fold (effect x) (concat (map (\<lambda>r. listeners_for ty (store d r)) p)) (hidden d x)"
  using assms
proof (induction p arbitrary: d)
  case Nil
  then show ?case by (simp add: frame_eq_refl)
next
  case (Cons r p)
  let ?d1 = "dispatch_at ty r d"
  have first: "frame_eq d ?d1 \<and>
         calls ?d1 = calls d @ listeners_for ty (store d r) \<and>
         hidden ?d1 x = fold (effect x) (listeners_for ty (store d r)) (hidden d x)"
    unfolding dispatch_at_def
  proof (rule fold_run_closures)
    fix cb assume "cb \<in> set (listeners_for ty (store d r))"
    then show "\<exists>q. closure_over cb q" using Cons.prems [of r cb] by simp
  qed
  then have same: "\<And>r'. listeners_for ty (store ?d1 r') = listeners_for ty (store d r')"
    by (simp add: frame_eq_listeners)
  have ih: "frame_eq ?d1 (fold (dispatch_at ty) p ?d1) \<and>
         calls (fold (dispatch_at ty) p ?d1) =
           calls ?d1 @ concat (map (\<lambda>r. listeners_for ty (store ?d1 r)) p) \<and>
         hidden (fold (dispatch_at ty) p ?d1) x =
           fold (effect x) (concat (map (\<lambda>r. listeners_for ty (store ?d1 r)) p)) (hidden ?d1 x)"
  proof (rule Cons.IH)
    fix r' cb assume "r' \<in> set p" "cb \<in> set (listeners_for ty (store ?d1 r'))"
    then show "\<exists>q. closure_over cb q" using Cons.prems [of r' cb] by (simp add: same)
  qed
  show ?case
    using ih first frame_eq_trans [of d ?d1] by (simp add: same)
qed

lemma click_closures:
  assumes "\<And>cb. cb \<in> set (click_callbacks d x) \<Longrightarrow> \<exists>q. closure_over cb q"
  shows "frame_eq d (click x d)"
    and "calls (click x d) = calls d @ click_callbacks d x"
    and "hidden (click x d) r = fold (effect r) (click_callbacks d x) (hidden d r)"
proof -
  have "frame_eq d (click x d) \<and> calls (click x d) = calls d @ click_callbacks d x \<and>
        hidden (click x d) r = fold (effect r) (click_callbacks d x) (hidden d r)"
  proof (cases "path_to x (dom d)")
    case None
    then show ?thesis by (simp add: click_def dispatch_def click_callbacks_def frame_eq_refl)
  next
    case (Some p)
    have "frame_eq d (fold (dispatch_at ''click'') p d) \<and>
         calls (fold (dispatch_at ''click'') p d) =
           calls d @ concat (map (\<lambda>r. listeners_for ''click'' (store d r)) p) \<and>
         hidden (fold (dispatch_at ''click'') p d) r =
           fold (effect r) (concat (map (\<lambda>r. listeners_for ''click'' (store d r)) p)) (hidden d r)"
    proof (rule fold_dispatch_closures)
      fix r' cb assume "r' \<in> set p" "cb \<in> set (listeners_for ''click'' (store d r'))"
      then have "cb \<in> set (click_callbacks d x)" using Some by (auto simp add: click_callbacks_def)
      then show "\<exists>q. closure_over cb q" by (rule assms)
    qed
    then show ?thesis using Some by (simp add: click_def dispatch_def click_callbacks_def)
  qed
  then show "frame_eq d (click x d)"
    and "calls (click x d) = calls d @ click_callbacks d x"
    and "hidden (click x d) r = fold (effect r) (click_callbacks d x) (hidden d r)"
    by simp_all
qed






section \<open>The markup of the header, paths and selectors\<close>

lemma below_20:
  "k < (20::nat) \<Longrightarrow>
     k \<in> {0, 1, 2, 3, 4, 5, 6, 7, 8, 9, 10, 11, 12, 13, 14, 15, 16, 17, 18, 19}"
  by (simp add: numeral_eq_Suc less_Suc_eq)

lemma header_only_menuBtn:
  assumes "k < 20" and "has_id (header_data ! k) ''menuBtn''"
  shows "k = 9"
  using below_20 [OF assms(1)] assms(2) by (auto simp add: header_menuBtn_at)



lemma select_inside_set_children:
  assumes "\<And>r. r \<in> set (outside c t) \<Longrightarrow> \<not> has_id (s r) i"
  shows "set (select_inside s i tg False (set_children c new t)) =
     (if c \<in> set (preorder t)
      then set (concat (map (select_inside s i tg False) new)) else {})"
  using assms
proof (induction t)
  case (Tree r ts)
  have r: "\<not> has_id (s r) i"
    using Tree.prems [of r] by (simp add: outside_def)
  show ?case
  proof (cases "r = c")
    case True
    then show ?thesis using r by simp
  next
    case False
    have each: "\<And>u. u \<in> set ts \<Longrightarrow>
        set (select_inside s i tg False (set_children c new u)) =
        (if c \<in> set (preorder u)
         then set (concat (map (select_inside s i tg False) new)) else {})"
    proof -
      fix u assume u: "u \<in> set ts"
      show "set (select_inside s i tg False (set_children c new u)) =
        (if c \<in> set (preorder u)
         then set (concat (map (select_inside s i tg False) new)) else {})"
      proof (rule Tree.IH [OF u])
        fix r' assume "r' \<in> set (outside c u)"
        then have "r' \<in> set (outside c (Tree r ts))"
          using u False by (auto simp add: outside_def)
        then show "\<not> has_id (s r') i" by (rule Tree.prems)
      qed
    qed
    show ?thesis using False r each by (auto simp add: comp_def)
  qed
qed

lemma node_eqI:
  "same_markup a b \<Longrightarrow> listeners a = listeners b \<Longrightarrow> (a::node) = b"
  by (cases a, cases b) (simp add: same_markup_def)

section \<open>The page after the header markup was injected\<close>

lemma injected_nodes:
  assumes "y \<in> set (preorder (dom (inject c headerHTML d)))"
  shows "y \<in> set (outside c (dom d)) \<or> (\<exists>k<20. y = next_ref d + k)"
proof -
  obtain ts s' n' where a: "alloc_list headerHTML (store d) (next_ref d) = (ts, s', n')"
    by (cases "alloc_list headerHTML (store d) (next_ref d)") auto
  have "n' = next_ref d + 20" using header_next [of "store d" "next_ref d"] a by simp
  then have new: "set (concat (map preorder ts)) = {next_ref d..<next_ref d + 20}"
    using alloc_preorder(2) [OF a] by simp
  have "y \<in> set (preorder (set_children c [] (dom d))) \<union> set (concat (map preorder ts))"
    using assms a preorder_set_children_subset [of c ts "dom d"] by (auto simp add: inject_simps)
  then show ?thesis
  proof
    assume "y \<in> set (preorder (set_children c [] (dom d)))"
    then show ?thesis by (simp add: outside_def)
  next
    assume "y \<in> set (concat (map preorder ts))"
    then have "next_ref d \<le> y" "y < next_ref d + 20" using new by auto
    then have "y - next_ref d < 20" "y = next_ref d + (y - next_ref d)" by auto
    then show ?thesis by blast
  qed
qed

lemma page_ok_refs: "page_ok d \<Longrightarrow> r \<in> set (preorder (dom d)) \<Longrightarrow> r < next_ref d"
  by (simp add: page_ok_def)

lemma outside_old:
  assumes "page_ok d" and "r \<in> set (outside c (dom d))"
  shows "r < next_ref d"
  using assms outside_subset [of c "dom d"] page_ok_refs by blast

lemma injected_menuBtn_is:
  assumes ok: "page_ok d" and hc: "getElementById d ''header-container'' = Some c"
    and clean: "host_clean d c"
  shows "getElementById (inject c headerHTML d) ''menuBtn'' = Some (next_ref d + 9)"
  unfolding getElementById_def
proof (rule find_unique)
  have c: "c \<in> set (preorder (dom d))" using found_element [OF hc] by simp
  show "next_ref d + 9 \<in> set (preorder (dom (inject c headerHTML d)))"
    by (rule header_fresh_in_dom [OF c]) simp
  show "has_id (store (inject c headerHTML d) (next_ref d + 9)) ''menuBtn''"
    by (simp add: inject_header_fresh header_menuBtn_at)
  fix y
  assume y: "y \<in> set (preorder (dom (inject c headerHTML d)))"
    and id: "has_id (store (inject c headerHTML d) y) ''menuBtn''"
  from injected_nodes [OF y] show "y = next_ref d + 9"
  proof
    assume out: "y \<in> set (outside c (dom d))"
    then have "store (inject c headerHTML d) y = store d y"
      using outside_old [OF ok out] by (simp add: inject_old)
    then show ?thesis using id clean out by (simp add: host_clean_def)
  next
    assume "\<exists>k<20. y = next_ref d + k"
    then obtain k where k: "k < 20" "y = next_ref d + k" by blast
    then have "has_id (header_data ! k) ''menuBtn''" using id by (simp add: inject_header_fresh)
    then show ?thesis using header_only_menuBtn k by simp
  qed
qed


lemma header_select:
  assumes "\<And>k. k < 20 \<Longrightarrow> s (n + k) = header_data ! k"
  shows "concat (map (select_inside s ''mobileMenu'' ''a'' False) (fst (alloc_list headerHTML s0 n))) =
           [n + 15, n + 18]"
proof -
  have low: "s n = header_data ! 0" "s (Suc n) = header_data ! 1"
    "s (Suc (Suc n)) = header_data ! 2"
    using assms [of 0] assms [of 1] assms [of 2] by simp_all
  show ?thesis
    by (simp add: header_trees assms low header_link_at header_mobileMenu_at)
qed

lemma injected_links:
  assumes ok: "page_ok d" and hc: "getElementById d ''header-container'' = Some c"
    and clean: "host_clean d c"
  shows "set (querySelectorAll (inject c headerHTML d) ''mobileMenu'' ''a'') =
           {next_ref d + 15, next_ref d + 18}"
proof -
  let ?d1 = "inject c headerHTML d"
  let ?ts = "fst (alloc_list headerHTML (store d) (next_ref d))"
  have c: "c \<in> set (preorder (dom d))" using found_element [OF hc] by simp
  have out: "\<And>r. r \<in> set (outside c (dom d)) \<Longrightarrow> \<not> has_id (store ?d1 r) ''mobileMenu''"
  proof -
    fix r assume r: "r \<in> set (outside c (dom d))"
    then have "store ?d1 r = store d r" using outside_old [OF ok r] by (simp add: inject_old)
    then show "\<not> has_id (store ?d1 r) ''mobileMenu''" using clean r by (simp add: host_clean_def)
  qed
  have sel: "set (select_inside (store ?d1) ''mobileMenu'' ''a'' False (set_children c ?ts (dom d))) =
        set (concat (map (select_inside (store ?d1) ''mobileMenu'' ''a'' False) ?ts))"
    using select_inside_set_children [of c "dom d" "store ?d1" "''mobileMenu''" "''a''" ?ts, OF out] c
    by simp
  have links: "concat (map (select_inside (store ?d1) ''mobileMenu'' ''a'' False) ?ts) =
        [next_ref d + 15, next_ref d + 18]"
    by (rule header_select) (simp add: inject_header_fresh)
  have "set (querySelectorAll ?d1 ''mobileMenu'' ''a'') =
        set (select_inside (store ?d1) ''mobileMenu'' ''a'' False (set_children c ?ts (dom d)))"
    by (simp add: querySelectorAll_def inject_simps)
  also have "\<dots> = set (concat (map (select_inside (store ?d1) ''mobileMenu'' ''a'' False) ?ts))"
    by (rule sel)
  also have "\<dots> = {next_ref d + 15, next_ref d + 18}"
    by (simp only: links) simp
  finally show ?thesis .
qed

section \<open>The page after the listeners were attached\<close>



lemma mounted_old:
  assumes ok: "page_ok d" and hc: "getElementById d ''header-container'' = Some c"
    and clean: "host_clean d c" and x: "x < next_ref d"
  shows "store (attach (inject c headerHTML d)) x = store d x"
proof (rule node_eqI)
  let ?d1 = "inject c headerHTML d"
  have old: "store ?d1 x = store d x" using x by (simp add: inject_old)
  show "same_markup (store (attach ?d1) x) (store d x)"
    using attach_markup [of ?d1 x] by (simp add: old)
  have "x \<notin> set (querySelectorAll ?d1 ''mobileMenu'' ''a'')"
    using x by (simp add: injected_links [OF ok hc clean])
  then have "count_list (querySelectorAll ?d1 ''mobileMenu'' ''a'') x = 0"
    by (rule count_notin)
  then show "listeners (store (attach ?d1) x) = listeners (store d x)"
    using x by (simp add: attach_listeners injected_menuBtn_is [OF ok hc clean] old)
qed


lemma old_callbacks:
  assumes ok: "page_ok d" and cb: "cb \<in> set (concat (map (\<lambda>r. listeners_for ''click'' (store d r)) q))"
  shows "\<exists>t<next_ref d. closure_over cb t"
  using assms by (auto simp add: page_ok_def)




section \<open>Clicks on the mounted header\<close>









section \<open>Witnesses and counterexamples for the clicks\<close>

lemma site_page_ok: "page_ok (site_page ph)"
  by (simp add: page_ok_def site_page_def site_store_def new_page_def listeners_for_def
      element_def document_node_def unused_def)

lemma site_host_clean: "host_clean (site_page ph) 3"
  by (simp add: host_clean_def outside_def site_page_def site_store_def new_page_def
      has_id_def is_element_def element_def document_node_def)





section \<open>The invariant after a mount\<close>




lemma inject_listeners:
  "set (listeners (store (inject c headerHTML d) r)) \<subseteq> set (listeners (store d r))"
proof -
  obtain ts s' n' where a: "alloc_list headerHTML (store d) (next_ref d) = (ts, s', n')"
    by (cases "alloc_list headerHTML (store d) (next_ref d)") auto
  have "s' r = store d r \<or> listeners (s' r) = []"
    using alloc_frame(2) [OF a] alloc_fresh_listeners(2) [OF a] by (metis not_le_imp_less)
  then show ?thesis using a by (auto simp add: inject_simps)
qed

lemma inject_next: "next_ref (inject c headerHTML d) = next_ref d + 20"
  by (simp add: inject_simps header_next)

lemma mounted_page_ok:
  assumes ok: "page_ok d" and hc: "getElementById d ''header-container'' = Some c"
  shows "page_ok (attach (inject c headerHTML d))"
proof -
  let ?d1 = "inject c headerHTML d"
  have c: "c \<in> set (preorder (dom d))" using found_element [OF hc] by simp
  obtain m where m: "getElementById ?d1 ''mobileMenu'' = Some m"
    using injected_mobileMenu [OF c] by blast
  have refs: "\<And>r. r \<in> set (preorder (dom ?d1)) \<Longrightarrow> r < next_ref d + 20"
  proof -
    fix r assume "r \<in> set (preorder (dom ?d1))"
    from injected_nodes [OF this] show "r < next_ref d + 20"
      using outside_old [OF ok, of r c] by auto
  qed
  have mlt: "m < next_ref d + 20" using found_element [OF m] refs by blast
  have "\<And>r cb. cb \<in> set (listeners_for ''click'' (store (attach ?d1) r)) \<Longrightarrow>
          \<exists>q<next_ref d + 20. closure_over cb q"
  proof -
    fix r cb assume "cb \<in> set (listeners_for ''click'' (store (attach ?d1) r))"
    then have "(''click'', cb) \<in> set (listeners (store (attach ?d1) r))"
      by (auto simp add: listeners_for_def)
    then consider "(''click'', cb) \<in> set (listeners (store ?d1 r))"
      | "cb = ToggleHidden (Some m)" | "cb = AddHidden (Some m)"
      by (auto simp add: attach_listeners m split: if_splits)
    then show "\<exists>q<next_ref d + 20. closure_over cb q"
    proof cases
      case 1
      then have "(''click'', cb) \<in> set (listeners (store d r))"
        using inject_listeners [of c d r] by blast
      then have "cb \<in> set (listeners_for ''click'' (store d r))"
        by (force simp add: listeners_for_def)
      then obtain q where "q < next_ref d" "closure_over cb q"
        using ok unfolding page_ok_def by blast
      then show ?thesis by (metis trans_less_add1)
    next
      case 2
      then show ?thesis using mlt by (auto simp add: closure_over_def)
    next
      case 3
      then show ?thesis using mlt by (auto simp add: closure_over_def)
    qed
  qed
  then show ?thesis
    using refs by (simp add: page_ok_def attach_simps inject_next)
qed

lemma mounted_markup_old:
  assumes "r < next_ref d"
  shows "same_markup (store (attach (inject c headerHTML d)) r) (store d r)"
  using attach_markup [of "inject c headerHTML d" r] assms by (simp add: inject_old)




section \<open>Two mounts\<close>












section \<open>The footer, and what a mount leaves alone\<close>

lemma loadFooter_eq:
  assumes "getElementById d ''footer-container'' = Some c"
  shows "loadFooter d = Inr (inject c footerHTML d)"
  by (simp add: loadFooter_def assms set_innerHTML_eq)


lemma site_footer_container: "getElementById (site_page ph) ''footer-container'' = Some 5"
  by (simp add: getElementById_def site_page_def site_store_def new_page_def has_id_def
      is_element_def element_def document_node_def)




lemma inject_emptied:
  "set_children c [] (dom (inject c markup d)) = set_children c [] (dom d)"
  by (simp add: inject_simps set_children_twice)

text \<open>
  Claim C8, amended. When the placeholder is present, \<^verbatim>\<open>loadHeader\<close> leaves the
  document outside the content of the header placeholder as it was: the tree with that
  content taken out is the same, and every node outside it keeps its kind, attributes
  and class tokens. It keeps its listeners too when no element outside the placeholder
  has the id \<^verbatim>\<open>menuBtn\<close> or \<^verbatim>\<open>mobileMenu\<close>; otherwise \<^verbatim>\<open>loadHeader\<close> may
  attach listeners to elements outside the placeholder. \<^verbatim>\<open>loadFooter\<close> changes
  nothing outside the content of the footer placeholder.
\<close>

theorem mount_frame:
  assumes ok: "page_ok d"
  shows "(getElementById d ''header-container'' = Some c \<longrightarrow>
           (\<exists>d'. loadHeader d = Inr d' \<and>
              set_children c [] (dom d') = set_children c [] (dom d) \<and>
              (\<forall>r \<in> set (outside c (dom d)). same_markup (store d' r) (store d r)) \<and>
              (host_clean d c \<longrightarrow> (\<forall>r \<in> set (outside c (dom d)). store d' r = store d r)))) \<and>
         (getElementById d ''footer-container'' = Some c' \<longrightarrow>
           (\<exists>d'. loadFooter d = Inr d' \<and>
              set_children c' [] (dom d') = set_children c' [] (dom d) \<and>
              (\<forall>r \<in> set (outside c' (dom d)). store d' r = store d r)))"
proof (intro conjI impI)
  assume hc: "getElementById d ''header-container'' = Some c"
  let ?d' = "attach (inject c headerHTML d)"
  have "set_children c [] (dom ?d') = set_children c [] (dom d)"
    by (simp add: attach_simps inject_emptied)
  moreover have "\<forall>r \<in> set (outside c (dom d)). same_markup (store ?d' r) (store d r)"
    using mounted_markup_old outside_old [OF ok] by blast
  moreover have "host_clean d c \<longrightarrow> (\<forall>r \<in> set (outside c (dom d)). store ?d' r = store d r)"
    using mounted_old [OF ok hc] outside_old [OF ok] by blast
  ultimately show "\<exists>d'. loadHeader d = Inr d' \<and>
              set_children c [] (dom d') = set_children c [] (dom d) \<and>
              (\<forall>r \<in> set (outside c (dom d)). same_markup (store d' r) (store d r)) \<and>
              (host_clean d c \<longrightarrow> (\<forall>r \<in> set (outside c (dom d)). store d' r = store d r))"
    using loadHeader_eq [OF hc] by simp
next
  assume fc: "getElementById d ''footer-container'' = Some c'"
  have "\<forall>r \<in> set (outside c' (dom d)). store (inject c' footerHTML d) r = store d r"
    using inject_old outside_old [OF ok] by blast
  then show "\<exists>d'. loadFooter d = Inr d' \<and>
              set_children c' [] (dom d') = set_children c' [] (dom d) \<and>
              (\<forall>r \<in> set (outside c' (dom d)). store d' r = store d r)"
    using loadFooter_eq [OF fc] by (simp add: inject_emptied)
qed

text \<open>
  The page with both placeholders: the nodes outside the content of either placeholder
  are the six nodes of the page.
\<close>

theorem mount_frame_witness:
  "page_ok (site_page Ready) \<and>
   getElementById (site_page Ready) ''header-container'' = Some 3 \<and>
   host_clean (site_page Ready) 3 \<and>
   outside 3 (dom (site_page Ready)) = [0, 1, 2, 3, 4, 5] \<and>
   (\<exists>d'. loadHeader (site_page Ready) = Inr d' \<and>
      set_children 3 [] (dom d') = set_children 3 [] (dom (site_page Ready)) \<and>
      list_all (\<lambda>r. same_markup (store d' r) (store (site_page Ready) r))
        (outside 3 (dom (site_page Ready))) \<and>
      list_all (\<lambda>r. store d' r = store (site_page Ready) r)
        (outside 3 (dom (site_page Ready)))) \<and>
   getElementById (site_page Ready) ''footer-container'' = Some 5 \<and>
   outside 5 (dom (site_page Ready)) = [0, 1, 2, 3, 4, 5] \<and>
   (\<exists>d'. loadFooter (site_page Ready) = Inr d' \<and>
      set_children 5 [] (dom d') = set_children 5 [] (dom (site_page Ready)) \<and>
      list_all (\<lambda>r. store d' r = store (site_page Ready) r)
        (outside 5 (dom (site_page Ready))))"
proof -
  have o3: "outside 3 (dom (site_page Ready)) = [0, 1, 2, 3, 4, 5]"
    and o5: "outside 5 (dom (site_page Ready)) = [0, 1, 2, 3, 4, 5]"
    by (simp_all add: outside_def site_page_def new_page_def)
  show ?thesis
    using mount_frame [OF site_page_ok, of Ready 3 5]
      site_page_ok [of Ready] site_header_container [of Ready] site_host_clean [of Ready]
      site_footer_container [of Ready] o3 o5
    unfolding list_all_iff by blast
qed

text \<open>
  Without the condition on the ids: on the page with a button of its own,
  \<^verbatim>\<open>loadHeader\<close> attaches the toggle handler to that button (3), which is outside
  the header placeholder (5).
\<close>

theorem mount_frame_counterexample:
  "getElementById foreign_page ''header-container'' = Some 5 \<and>
   3 \<in> set (outside 5 (dom foreign_page)) \<and>
   3 \<notin> set (inside (reported loadHeader foreign_page) 5) \<and>
   listeners (store foreign_page 3) = [] \<and>
   listeners (store (reported loadHeader foreign_page) 3) = [(''click'', ToggleHidden (Some 4))]"
  by code_simp

section \<open>Lookups over the whole document\<close>

lemma loadHeader_returns: "\<exists>d'. loadHeader d = Inr d'"
proof (cases "getElementById d ''header-container''")
  case None
  then show ?thesis by (simp add: loadHeader_def)
next
  case (Some c)
  then show ?thesis using loadHeader_eq by blast
qed





section \<open>Scripts and the ready signal\<close>

lemma loadFooter_returns: "\<exists>d'. loadFooter d = Inr d'"
proof (cases "getElementById d ''footer-container''")
  case None
  then show ?thesis by (simp add: loadFooter_def)
next
  case (Some c)
  then show ?thesis using loadFooter_eq by blast
qed

lemma loadHeader_calls:
  "loadHeader d = Inr d' \<Longrightarrow>
     calls d' = calls d \<and> phase d' = phase d \<and> uncaught d' = uncaught d"
proof (cases "getElementById d ''header-container''")
  case None
  assume "loadHeader d = Inr d'"
  then show ?thesis using None by (auto simp add: loadHeader_def)
next
  case (Some c)
  assume "loadHeader d = Inr d'"
  then show ?thesis using loadHeader_eq [OF Some] by (auto simp add: attach_simps inject_simps)
qed

lemma loadFooter_calls:
  "loadFooter d = Inr d' \<Longrightarrow>
     calls d' = calls d \<and> phase d' = phase d \<and> uncaught d' = uncaught d"
proof (cases "getElementById d ''footer-container''")
  case None
  assume "loadFooter d = Inr d'"
  then show ?thesis using None by (auto simp add: loadFooter_def)
next
  case (Some c)
  assume "loadFooter d = Inr d'"
  then show ?thesis using loadFooter_eq [OF Some] by (auto simp add: inject_simps)
qed

lemma call_calls: "call cb d = Inr d' \<Longrightarrow> calls d' = calls d \<and> phase d' = phase d"
proof (cases cb)
  case (ToggleHidden t)
  assume "call cb d = Inr d'"
  then show ?thesis using ToggleHidden
    by (cases t) (auto simp add: classList_toggle_def Let_def)
next
  case (AddHidden t)
  assume "call cb d = Inr d'"
  then show ?thesis using AddHidden
    by (cases t) (auto simp add: classList_add_def Let_def)
next
  case LoadHeader
  assume "call cb d = Inr d'"
  then show ?thesis using LoadHeader loadHeader_calls by simp
next
  case LoadFooter
  assume "call cb d = Inr d'"
  then show ?thesis using LoadFooter loadFooter_calls by simp
qed

lemma run_listener_calls:
  "calls (run_listener cb d) = calls d @ [cb]" "phase (run_listener cb d) = phase d"
proof -
  let ?d0 = "d\<lparr>calls := calls d @ [cb]\<rparr>"
  have "calls (run_listener cb d) = calls d @ [cb] \<and> phase (run_listener cb d) = phase d"
  proof (cases "call cb ?d0")
    case (Inl e)
    then show ?thesis by (simp add: run_listener_def reported_def)
  next
    case (Inr d')
    then show ?thesis using call_calls [OF Inr] by (simp add: run_listener_def reported_def)
  qed
  then show "calls (run_listener cb d) = calls d @ [cb]" "phase (run_listener cb d) = phase d"
    by simp_all
qed

lemma fold_run_listener_calls:
  "calls (fold run_listener cbs d) = calls d @ cbs \<and> phase (fold run_listener cbs d) = phase d"
  by (induction cbs arbitrary: d) (simp_all add: run_listener_calls)

lemma document_path: "path_to (document d) (dom d) = Some [document d]"
  by (cases "dom d") (simp add: document_def)

lemma fire_calls:
  "calls (dispatch (document d) ''DOMContentLoaded'' d) = calls d @ pending d"
  "phase (dispatch (document d) ''DOMContentLoaded'' d) = phase d"
  by (simp_all add: dispatch_def document_path dispatch_at_def fold_run_listener_calls pending_def)

lemma readyState_loading: "(readyState d = ''loading'') = (phase d = Parsing)"
  by (cases "phase d") (simp_all add: readyState_def)

lemma add_listener_pending:
  "pending (add_listener (document d) ''DOMContentLoaded'' m d) = pending d @ [m]"
  by (simp add: pending_def document_def add_listener_simps listeners_for_def)

lemma script_deferred:
  assumes "phase d = Parsing"
  shows "header_script d = Inr (add_listener (document d) ''DOMContentLoaded'' LoadHeader d)"
    and "footer_script d = Inr (add_listener (document d) ''DOMContentLoaded'' LoadFooter d)"
  using assms
  by (simp_all add: header_script_def footer_script_def readyState_loading addEventListener_eq)

lemma script_immediate:
  assumes "phase d \<noteq> Parsing"
  shows "header_script d = loadHeader (d\<lparr>calls := calls d @ [LoadHeader]\<rparr>)"
    and "footer_script d = loadFooter (d\<lparr>calls := calls d @ [LoadFooter]\<rparr>)"
  using assms
  by (simp_all add: header_script_def footer_script_def readyState_loading invoke_def)


section \<open>The invariant along a run\<close>

lemma inject_nodes:
  assumes "y \<in> set (preorder (dom (inject c markup d)))"
  shows "y \<in> set (outside c (dom d)) \<or> (next_ref d \<le> y \<and> y < next_ref (inject c markup d))"
proof -
  obtain ts s' n' where a: "alloc_list markup (store d) (next_ref d) = (ts, s', n')"
    by (cases "alloc_list markup (store d) (next_ref d)") auto
  have new: "set (concat (map preorder ts)) = {next_ref d..<n'}"
    using alloc_preorder(2) [OF a] by simp
  have "y \<in> set (preorder (set_children c [] (dom d))) \<union> set (concat (map preorder ts))"
    using assms a preorder_set_children_subset [of c ts "dom d"] by (auto simp add: inject_simps)
  then show ?thesis using new a by (auto simp add: outside_def inject_simps)
qed

lemma inject_grows: "next_ref d \<le> next_ref (inject c markup d)"
  using alloc_frame(2) [of markup "store d" "next_ref d"]
  by (simp add: inject_simps prod_eq_iff)

lemma inject_listeners_old:
  "set (listeners (store (inject c markup d) r)) \<subseteq> set (listeners (store d r))"
proof -
  obtain ts s' n' where a: "alloc_list markup (store d) (next_ref d) = (ts, s', n')"
    by (cases "alloc_list markup (store d) (next_ref d)") auto
  have "s' r = store d r \<or> listeners (s' r) = []"
    using alloc_frame(2) [OF a] alloc_fresh_listeners(2) [OF a] by (metis not_le_imp_less)
  then show ?thesis using a by (auto simp add: inject_simps)
qed

lemma inject_page_ok:
  assumes ok: "page_ok d"
  shows "page_ok (inject c markup d)"
proof -
  have refs: "\<And>r. r \<in> set (preorder (dom (inject c markup d))) \<Longrightarrow>
      r < next_ref (inject c markup d)"
  proof -
    fix r assume "r \<in> set (preorder (dom (inject c markup d)))"
    from inject_nodes [OF this] show "r < next_ref (inject c markup d)"
      using outside_old [OF ok, of r c] inject_grows [of d c markup] by auto
  qed
  have "\<And>r cb. cb \<in> set (listeners_for ''click'' (store (inject c markup d) r)) \<Longrightarrow>
          \<exists>q<next_ref (inject c markup d). closure_over cb q"
  proof -
    fix r cb assume "cb \<in> set (listeners_for ''click'' (store (inject c markup d) r))"
    then have "(''click'', cb) \<in> set (listeners (store (inject c markup d) r))"
      by (auto simp add: listeners_for_def)
    then have "(''click'', cb) \<in> set (listeners (store d r))"
      using inject_listeners_old [of c markup d r] by blast
    then have "cb \<in> set (listeners_for ''click'' (store d r))"
      by (force simp add: listeners_for_def)
    then obtain q where "q < next_ref d" "closure_over cb q"
      using ok unfolding page_ok_def by blast
    then show "\<exists>q<next_ref (inject c markup d). closure_over cb q"
      using inject_grows [of d c markup] by (meson less_le_trans)
  qed
  then show ?thesis using refs by (simp add: page_ok_def)
qed

lemma page_ok_logged: "page_ok (d\<lparr>calls := cs\<rparr>) = page_ok d"
  "page_ok (d\<lparr>uncaught := es\<rparr>) = page_ok d" "page_ok (d\<lparr>phase := ph\<rparr>) = page_ok d"
  by (simp_all add: page_ok_def)

lemma frame_eq_page_ok: "frame_eq d d' \<Longrightarrow> page_ok d \<Longrightarrow> page_ok d'"
  by (simp add: page_ok_def frame_eq_def listeners_for_def)

lemma classList_frame:
  "classList_toggle t tok d = Inr d' \<Longrightarrow> frame_eq d d'"
  "classList_add t tok d = Inr d' \<Longrightarrow> frame_eq d d'"
  by (cases t; auto simp add: classList_toggle_def classList_add_def Let_def frame_eq_def)+

lemma call_page_ok:
  assumes ok: "page_ok d" and c: "call cb d = Inr d'"
  shows "page_ok d'"
proof (cases cb)
  case (ToggleHidden t)
  then have "frame_eq d d'" using c classList_frame(1) by simp
  then show ?thesis using ok by (rule frame_eq_page_ok)
next
  case (AddHidden t)
  then have "frame_eq d d'" using c classList_frame(2) by simp
  then show ?thesis using ok by (rule frame_eq_page_ok)
next
  case LoadHeader
  show ?thesis
  proof (cases "getElementById d ''header-container''")
    case None
    then show ?thesis using c ok LoadHeader by (simp add: loadHeader_def)
  next
    case (Some x)
    then have "d' = attach (inject x headerHTML d)"
      using c LoadHeader loadHeader_eq [OF Some] by simp
    then show ?thesis using mounted_page_ok [OF ok Some] by simp
  qed
next
  case LoadFooter
  show ?thesis
  proof (cases "getElementById d ''footer-container''")
    case None
    then show ?thesis using c ok LoadFooter by (simp add: loadFooter_def)
  next
    case (Some x)
    then have "d' = inject x footerHTML d" using c LoadFooter loadFooter_eq [OF Some] by simp
    then show ?thesis using inject_page_ok [OF ok, of x footerHTML] by simp
  qed
qed

lemma run_listener_page_ok: "page_ok d \<Longrightarrow> page_ok (run_listener cb d)"
proof -
  assume ok: "page_ok d"
  let ?d0 = "d\<lparr>calls := calls d @ [cb]\<rparr>"
  have ok0: "page_ok ?d0" using ok by (simp add: page_ok_logged)
  show ?thesis
  proof (cases "call cb ?d0")
    case (Inl e)
    then show ?thesis using ok0 by (simp add: run_listener_def reported_def page_ok_logged)
  next
    case (Inr d')
    then show ?thesis using call_page_ok [OF ok0 Inr] by (simp add: run_listener_def reported_def)
  qed
qed

lemma root_set_children: "root (set_children c new t) = root t"
  by (cases t) simp

lemma root_in_preorder: "root t \<in> set (preorder t)"
  by (cases t) simp

lemma frame_eq_pending: "frame_eq d d' \<Longrightarrow> pending d' = pending d"
  by (simp add: pending_def document_def frame_eq_def listeners_for_def)

lemma attach_listeners_for:
  "ty \<noteq> ''click'' \<Longrightarrow> listeners_for ty (store (attach d) x) = listeners_for ty (store d x)"
  by (simp add: listeners_for_def attach_listeners)

lemma inject_pending:
  assumes ok: "page_ok d"
  shows "pending (inject c markup d) = pending d"
proof -
  have "document d < next_ref d"
    using page_ok_refs [OF ok root_in_preorder [of "dom d"]] by (simp add: document_def)
  then have "store (inject c markup d) (document d) = store d (document d)"
    by (rule inject_old)
  then show ?thesis
    by (simp add: pending_def document_def inject_simps root_set_children)
qed

lemma attach_pending: "pending (attach d) = pending d"
  by (simp add: pending_def document_def attach_simps attach_listeners_for)

lemma pending_logged: "pending (d\<lparr>calls := cs\<rparr>) = pending d"
  "pending (d\<lparr>uncaught := es\<rparr>) = pending d" "pending (d\<lparr>phase := ph\<rparr>) = pending d"
  by (simp_all add: pending_def document_def)

lemma call_pending:
  assumes ok: "page_ok d" and c: "call cb d = Inr d'"
  shows "pending d' = pending d"
proof (cases cb)
  case (ToggleHidden t)
  then have "frame_eq d d'" using c classList_frame(1) by simp
  then show ?thesis by (rule frame_eq_pending)
next
  case (AddHidden t)
  then have "frame_eq d d'" using c classList_frame(2) by simp
  then show ?thesis by (rule frame_eq_pending)
next
  case LoadHeader
  show ?thesis
  proof (cases "getElementById d ''header-container''")
    case None
    then show ?thesis using c LoadHeader by (auto simp add: loadHeader_def)
  next
    case (Some x)
    then have "d' = attach (inject x headerHTML d)"
      using c LoadHeader loadHeader_eq [OF Some] by simp
    then show ?thesis by (simp add: attach_pending inject_pending [OF ok])
  qed
next
  case LoadFooter
  show ?thesis
  proof (cases "getElementById d ''footer-container''")
    case None
    then show ?thesis using c LoadFooter by (auto simp add: loadFooter_def)
  next
    case (Some x)
    then have "d' = inject x footerHTML d" using c LoadFooter loadFooter_eq [OF Some] by simp
    then show ?thesis by (simp add: inject_pending [OF ok])
  qed
qed

lemma run_listener_pending: "page_ok d \<Longrightarrow> pending (run_listener cb d) = pending d"
proof -
  assume ok: "page_ok d"
  let ?d0 = "d\<lparr>calls := calls d @ [cb]\<rparr>"
  have ok0: "page_ok ?d0" using ok by (simp add: page_ok_logged)
  show ?thesis
  proof (cases "call cb ?d0")
    case (Inl e)
    then show ?thesis by (simp add: run_listener_def reported_def pending_logged)
  next
    case (Inr d')
    then show ?thesis using call_pending [OF ok0 Inr]
      by (simp add: run_listener_def reported_def pending_logged)
  qed
qed

lemma fold_run_listener_ok:
  "page_ok d \<Longrightarrow> page_ok (fold run_listener cbs d) \<and> pending (fold run_listener cbs d) = pending d"
  by (induction cbs arbitrary: d) (simp_all add: run_listener_page_ok run_listener_pending)

lemma fold_dispatch_ok:
  "page_ok d \<Longrightarrow> page_ok (fold (dispatch_at ty) p d) \<and> pending (fold (dispatch_at ty) p d) = pending d"
  by (induction p arbitrary: d) (simp_all add: dispatch_at_def fold_run_listener_ok)

lemma dispatch_ok:
  "page_ok d \<Longrightarrow> page_ok (dispatch x ty d) \<and> pending (dispatch x ty d) = pending d"
  by (cases "path_to x (dom d)") (simp_all add: dispatch_def fold_dispatch_ok)

lemma click_callbacks_closures:
  assumes ok: "page_ok d" and cb: "cb \<in> set (click_callbacks d x)"
  shows "\<exists>q. closure_over cb q"
proof (cases "path_to x (dom d)")
  case None
  then show ?thesis using cb by (simp add: click_callbacks_def)
next
  case (Some p)
  then have "cb \<in> set (concat (map (\<lambda>r. listeners_for ''click'' (store d r)) p))"
    using cb by (simp add: click_callbacks_def)
  then show ?thesis using old_callbacks [OF ok] by blast
qed

lemma closures_count:
  assumes "\<And>cb. cb \<in> set cbs \<Longrightarrow> \<exists>q. closure_over cb q"
    and "m = LoadHeader \<or> m = LoadFooter"
  shows "count_list cbs m = 0"
proof -
  have "m \<notin> set cbs"
  proof
    assume "m \<in> set cbs"
    then obtain q where "closure_over m q" using assms(1) by blast
    then show False using assms(2) by (auto simp add: closure_over_def)
  qed
  then show ?thesis by simp
qed

lemma click_accounted:
  assumes ok: "page_ok d" and m: "m = LoadHeader \<or> m = LoadFooter"
  shows "accounted m (click x d) = accounted m d"
proof -
  have cl: "\<And>cb. cb \<in> set (click_callbacks d x) \<Longrightarrow> \<exists>q. closure_over cb q"
    by (rule click_callbacks_closures [OF ok])
  have fr: "frame_eq d (click x d)" by (rule click_closures(1) [OF cl])
  have "calls (click x d) = calls d @ click_callbacks d x" by (rule click_closures(2) [OF cl])
  moreover have "count_list (click_callbacks d x) m = 0" by (rule closures_count [OF cl m])
  moreover have "phase (click x d) = phase d" using fr by (simp add: frame_eq_def)
  ultimately show ?thesis using frame_eq_pending [OF fr] by (simp add: accounted_def)
qed

lemma add_listener_page_ok:
  "ty \<noteq> ''click'' \<Longrightarrow> page_ok d \<Longrightarrow> page_ok (add_listener r ty cb d)"
  by (simp add: page_ok_def add_listener_simps listeners_for_def)

lemma script_accounted:
  assumes ok: "page_ok d" and m: "m = LoadHeader \<or> m = LoadFooter"
  shows "page_ok (reported header_script d) \<and>
         accounted m (reported header_script d) = accounted m d + (if m = LoadHeader then 1 else 0)"
    and "page_ok (reported footer_script d) \<and>
         accounted m (reported footer_script d) = accounted m d + (if m = LoadFooter then 1 else 0)"
proof -
  have gen: "\<And>k script. k = LoadHeader \<or> k = LoadFooter \<Longrightarrow>
      (phase d = Parsing \<longrightarrow> script d = Inr (add_listener (document d) ''DOMContentLoaded'' k d)) \<Longrightarrow>
      (phase d \<noteq> Parsing \<longrightarrow> script d = call k (d\<lparr>calls := calls d @ [k]\<rparr>)) \<Longrightarrow>
      page_ok (reported script d) \<and>
      accounted m (reported script d) = accounted m d + (if m = k then 1 else 0)"
  proof -
    fix k :: callback and script :: "page \<Rightarrow> error + page"
    assume k: "k = LoadHeader \<or> k = LoadFooter"
      and def: "phase d = Parsing \<longrightarrow> script d = Inr (add_listener (document d) ''DOMContentLoaded'' k d)"
      and imm: "phase d \<noteq> Parsing \<longrightarrow> script d = call k (d\<lparr>calls := calls d @ [k]\<rparr>)"
    show "page_ok (reported script d) \<and>
      accounted m (reported script d) = accounted m d + (if m = k then 1 else 0)"
    proof (cases "phase d = Parsing")
      case True
      then have r: "reported script d = add_listener (document d) ''DOMContentLoaded'' k d"
        using def by (simp add: reported_def)
      show ?thesis
        using True ok
        by (simp add: r add_listener_page_ok accounted_def add_listener_pending add_listener_simps)
    next
      case False
      let ?d0 = "d\<lparr>calls := calls d @ [k]\<rparr>"
      have ok0: "page_ok ?d0" using ok by (simp add: page_ok_logged)
      obtain d' where d': "call k ?d0 = Inr d'"
        using k loadHeader_returns [of ?d0] loadFooter_returns [of ?d0] by auto
      have r: "reported script d = d'" using False imm d' by (simp add: reported_def)
      have "calls d' = calls d @ [k]" "phase d' = phase d"
        using call_calls [OF d'] by simp_all
      moreover have "pending d' = pending d"
        using call_pending [OF ok0 d'] by (simp add: pending_logged)
      ultimately show ?thesis
        using call_page_ok [OF ok0 d'] by (auto simp add: r accounted_def)
    qed
  qed
  show "page_ok (reported header_script d) \<and>
         accounted m (reported header_script d) = accounted m d + (if m = LoadHeader then 1 else 0)"
    by (rule gen) (simp_all add: script_deferred script_immediate)
  show "page_ok (reported footer_script d) \<and>
         accounted m (reported footer_script d) = accounted m d + (if m = LoadFooter then 1 else 0)"
    by (rule gen) (simp_all add: script_deferred script_immediate)
qed

lemma step_accounted:
  assumes ok: "page_ok d" and m: "m = LoadHeader \<or> m = LoadFooter"
    and step: "browser_step e d = Some d'"
  shows "page_ok d' \<and> accounted m d' = accounted m d + (if mount_of e = Some m then 1 else 0)"
proof (cases e)
  case RunHeaderScript
  then show ?thesis using step script_accounted(1) [OF ok m] by auto
next
  case RunFooterScript
  then show ?thesis using step script_accounted(2) [OF ok m] by auto
next
  case ParserFinishes
  then show ?thesis using step ok
    by (auto simp add: page_ok_logged accounted_def pending_logged split: if_splits)
next
  case FireDOMContentLoaded
  let ?d1 = "dispatch (document d) ''DOMContentLoaded'' d"
  have p: "phase d = Parsed" and d': "d' = ?d1\<lparr>phase := Ready\<rparr>"
    using step FireDOMContentLoaded by (auto split: if_splits)
  have "page_ok ?d1" using dispatch_ok [OF ok] by simp
  moreover have "calls ?d1 = calls d @ pending d" by (rule fire_calls(1))
  ultimately show ?thesis
    using p FireDOMContentLoaded by (simp add: d' page_ok_logged accounted_def)
next
  case LoadFinishes
  then show ?thesis using step ok
    by (auto simp add: page_ok_logged accounted_def pending_logged split: if_splits)
next
  case (UserClick r)
  then have d': "d' = click r d" using step by simp
  have "page_ok (click r d)" using dispatch_ok [OF ok] by (simp add: click_def)
  then show ?thesis using UserClick click_accounted [OF ok m] by (simp add: d')
qed

lemma run_accounted:
  assumes "page_ok d" and m: "m = LoadHeader \<or> m = LoadFooter"
    and "browser_run es d = Some d'"
  shows "page_ok d' \<and> accounted m d' = accounted m d + executions m es"
  using assms(1,3)
proof (induction es arbitrary: d)
  case Nil
  then show ?case by (simp add: executions_def)
next
  case (Cons e es)
  obtain d1 where s: "browser_step e d = Some d1" and r: "browser_run es d1 = Some d'"
    using Cons.prems(2) by (auto split: option.splits)
  have one: "page_ok d1 \<and> accounted m d1 = accounted m d + (if mount_of e = Some m then 1 else 0)"
    by (rule step_accounted [OF Cons.prems(1) m s])
  then have "page_ok d' \<and> accounted m d' = accounted m d1 + executions m es"
    using Cons.IH r by blast
  then show ?case using one by (simp add: executions_def)
qed

text \<open>The invariant of pages holds along every run.\<close>

lemma page_ok_invariant:
  assumes "page_ok d" and "browser_run es d = Some d'"
  shows "page_ok d'"
  using run_accounted [OF assms(1) _ assms(2), of LoadHeader] by simp

section \<open>Scheduling of the mounts\<close>









end
